theory Spec2Isabelle
  imports Main "HOL-Library.AList"
begin

section \<open>Event-path derivation (\<open>deriveEventPathsRevertAware\<close>)\<close>

text \<open>
  The functions below follow \<^verbatim>\<open>src/lib/stitch-receipt-logs-into-calltracer.ts\<close>.
  JavaScript numbers that hold depths and program counters are integers (\<open>int\<close>);
  child indices and event indices start at zero and only grow, so they are \<open>nat\<close>.
  Strings are \<open>char list\<close>. A property access on \<open>undefined\<close> raises a
  \<open>TypeError\<close> in the source and is the value \<open>Inl TypeError\<close> here; a loop that does
  not end is the value \<open>None\<close>.
\<close>

datatype error = TypeError

record StructLogStep =
  op :: string
  depth :: int
  pc :: int

record Frame =
  path :: "nat list"
  nextChild :: nat
  logsIdx :: "nat list"
  reverted :: bool

text \<open>The provisional records of the array \<open>events\<close>; a missing \<open>dropped\<close> field is \<open>False\<close>.\<close>

record Event =
  ev_op :: string
  ev_pc :: int
  ev_depth :: int
  ev_callPath :: "nat list"
  dropped :: bool

record EventPath =
  ep_op :: string
  ep_pc :: int
  ep_depth :: int
  callPath :: "nat list"
  eventIdxInCall :: nat

record LoopState =
  frames :: "Frame list"
  prevDepth :: int
  pending :: "(nat \<times> nat) option"
  events :: "Event list"

definition ENTER :: "string set" where
  "ENTER = {''CALL'', ''STATICCALL'', ''DELEGATECALL'', ''CALLCODE'', ''CREATE'', ''CREATE2''}"

definition startsWith :: "string \<Rightarrow> string \<Rightarrow> bool" where
  "startsWith s p = (take (length p) s = p)"

subsection \<open>Decimal rendering and \<open>Array.prototype.join\<close>\<close>

definition digit_char :: "nat \<Rightarrow> char" where
  "digit_char n = char_of (48 + n)"

fun show_nat :: "nat \<Rightarrow> string" where
  "show_nat n = (if n < 10 then [digit_char n] else show_nat (n div 10) @ [digit_char (n mod 10)])"

declare show_nat.simps [simp del]

fun join :: "string list \<Rightarrow> string \<Rightarrow> string" where
  "join [] sep = []"
| "join [x] sep = x"
| "join (x # y # ys) sep = x @ sep @ join (y # ys) sep"

definition path_key :: "nat list \<Rightarrow> string" where
  "path_key p = join (map show_nat p) ''/''"

subsection \<open>The phases of one loop iteration\<close>

text \<open>Lines 100-114: resolve the reservation made by the previous step.\<close>

definition resolve_pending :: "int \<Rightarrow> LoopState \<Rightarrow> error + LoopState" where
  "resolve_pending d st =
     (case pending st of
        None \<Rightarrow> Inr st
      | Some (parent, idx) \<Rightarrow>
          if d > prevDepth st then
            (if parent < length (frames st) then
               Inr (st\<lparr>frames := frames st @
                          [\<lparr>path = path (frames st ! parent) @ [idx], nextChild = 0,
                            logsIdx = [], reverted = False\<rparr>],
                       pending := None\<rparr>)
             else Inl TypeError)
          else Inr (st\<lparr>pending := None\<rparr>))"

text \<open>Line 121: \<open>for (const idx of f.logsIdx) events[idx].dropped = true\<close>.\<close>

fun mark_dropped :: "nat list \<Rightarrow> Event list \<Rightarrow> error + Event list" where
  "mark_dropped [] evs = Inr evs"
| "mark_dropped (i # is) evs =
     (if i < length evs then mark_dropped is (evs[i := (evs ! i)\<lparr>dropped := True\<rparr>])
      else Inl TypeError)"

text \<open>
  Lines 117-123: the \<open>while\<close> loop. \<open>frames.pop()\<close> on an empty array returns
  \<open>undefined\<close> and changes nothing, so the loop goes on with the same state.
\<close>

partial_function (option) pop_frames ::
  "int \<Rightarrow> Frame list \<Rightarrow> Event list \<Rightarrow> (error + Frame list \<times> Event list) option" where
  "pop_frames d fs evs =
     (if int (length fs) - 1 > d - 1 then
        (if fs = [] then pop_frames d fs evs
         else if reverted (last fs) then
           (case mark_dropped (logsIdx (last fs)) evs of
              Inl e \<Rightarrow> Some (Inl e)
            | Inr evs' \<Rightarrow> pop_frames d (butlast fs) evs')
         else pop_frames d (butlast fs) evs)
      else Some (Inr (fs, evs)))"

declare pop_frames.simps [code]

text \<open>Lines 125-130: reserve a child slot.\<close>

definition enter_call :: "string \<Rightarrow> LoopState \<Rightarrow> error + LoopState" where
  "enter_call opc st =
     (if opc \<in> ENTER then
        (if frames st = [] then Inl TypeError
         else let parentIdx = length (frames st) - 1;
                  idx = nextChild (frames st ! parentIdx)
              in Inr (st\<lparr>frames := (frames st)[parentIdx := (frames st ! parentIdx)\<lparr>nextChild := idx + 1\<rparr>],
                      pending := Some (parentIdx, idx)\<rparr>))
      else Inr st)"

text \<open>Lines 132-142: capture a log.\<close>

definition capture_log :: "StructLogStep \<Rightarrow> LoopState \<Rightarrow> error + LoopState" where
  "capture_log s st =
     (if startsWith (op s) ''LOG'' then
        (if frames st = [] then Inl TypeError
         else let cur = last (frames st);
                  evIdx = length (events st)
              in Inr (st\<lparr>frames := (frames st)[length (frames st) - 1 := cur\<lparr>logsIdx := logsIdx cur @ [evIdx]\<rparr>],
                      events := events st @
                        [\<lparr>ev_op = op s, ev_pc = pc s, ev_depth = depth s,
                          ev_callPath = path cur, dropped = False\<rparr>]\<rparr>))
      else Inr st)"

text \<open>Lines 144-147: mark the current frame as reverted.\<close>

definition mark_revert :: "string \<Rightarrow> LoopState \<Rightarrow> error + LoopState" where
  "mark_revert opc st =
     (if opc = ''REVERT'' then
        (if frames st = [] then Inl TypeError
         else Inr (st\<lparr>frames := (frames st)[length (frames st) - 1 := (last (frames st))\<lparr>reverted := True\<rparr>]\<rparr>))
      else Inr st)"

text \<open>The effects of a step once the stack has been unwound to its depth (lines 125-149).\<close>

definition step_effects :: "StructLogStep \<Rightarrow> LoopState \<Rightarrow> error + LoopState" where
  "step_effects s st =
     (case enter_call (op s) st of
        Inl e \<Rightarrow> Inl e
      | Inr st1 \<Rightarrow>
          (case capture_log s st1 of
             Inl e \<Rightarrow> Inl e
           | Inr st2 \<Rightarrow>
               (case mark_revert (op s) st2 of
                  Inl e \<Rightarrow> Inl e
                | Inr st3 \<Rightarrow> Inr (st3\<lparr>prevDepth := depth s\<rparr>))))"

text \<open>The stack and the event list as they are when the step's own effects begin (lines 100-123).\<close>

definition unwind :: "StructLogStep \<Rightarrow> LoopState \<Rightarrow> (error + LoopState) option" where
  "unwind s st =
     (case resolve_pending (depth s) st of
        Inl e \<Rightarrow> Some (Inl e)
      | Inr st1 \<Rightarrow>
          (case pop_frames (depth s) (frames st1) (events st1) of
             None \<Rightarrow> None
           | Some (Inl e) \<Rightarrow> Some (Inl e)
           | Some (Inr (fs, evs)) \<Rightarrow> Some (Inr (st1\<lparr>frames := fs, events := evs\<rparr>))))"

definition process_step :: "LoopState \<Rightarrow> StructLogStep \<Rightarrow> (error + LoopState) option" where
  "process_step st s =
     (case unwind s st of
        None \<Rightarrow> None
      | Some (Inl e) \<Rightarrow> Some (Inl e)
      | Some (Inr st1) \<Rightarrow> Some (step_effects s st1))"

fun run_steps :: "LoopState \<Rightarrow> StructLogStep list \<Rightarrow> (error + LoopState) option" where
  "run_steps st [] = Some (Inr st)"
| "run_steps st (s # ss) =
     (case process_step st s of
        None \<Rightarrow> None
      | Some (Inl e) \<Rightarrow> Some (Inl e)
      | Some (Inr st') \<Rightarrow> run_steps st' ss)"

definition init_state :: "StructLogStep list \<Rightarrow> LoopState" where
  "init_state steps =
     \<lparr>frames = [\<lparr>path = [], nextChild = 0, logsIdx = [], reverted = False\<rparr>],
      prevDepth = (case steps of [] \<Rightarrow> 1 | s # _ \<Rightarrow> depth s),
      pending = None,
      events = []\<rparr>"

subsection \<open>Finalisation (lines 155-171)\<close>

fun finalize :: "(string \<rightharpoonup> nat) \<Rightarrow> Event list \<Rightarrow> EventPath list" where
  "finalize counters [] = []"
| "finalize counters (e # es) =
     (if dropped e then finalize counters es
      else let key = path_key (ev_callPath e);
               n = (case counters key of None \<Rightarrow> 0 | Some c \<Rightarrow> c)
           in \<lparr>ep_op = ev_op e, ep_pc = ev_pc e, ep_depth = ev_depth e,
               callPath = ev_callPath e, eventIdxInCall = n\<rparr>
              # finalize (counters(key \<mapsto> n + 1)) es)"

definition deriveEventPathsRevertAware ::
  "StructLogStep list \<Rightarrow> (error + EventPath list) option" where
  "deriveEventPathsRevertAware steps =
     (case run_steps (init_state steps) steps of
        None \<Rightarrow> None
      | Some (Inl e) \<Rightarrow> Some (Inl e)
      | Some (Inr st) \<Rightarrow> Some (Inr (finalize Map.empty (events st))))"

text \<open>
  The loop state at the start of iteration \<open>k\<close>, and the paths of the frames on top of the
  stack at the steps that capture a log (the stack as it is once the step has been unwound
  to its depth; reserving a child slot does not change the path of the top frame).
\<close>

definition state_after :: "StructLogStep list \<Rightarrow> nat \<Rightarrow> (error + LoopState) option" where
  "state_after steps k = run_steps (init_state steps) (take k steps)"


section \<open>The call tree and its index (\<open>annotateCallPaths\<close>)\<close>

text \<open>
  A call node carries the fields the source reads or writes; \<open>output\<close>, \<open>value\<close>, \<open>gas\<close> and
  \<open>gasUsed\<close> are never touched and are left out. An optional field is an \<open>option\<close>. The
  type parameter is what a node's \<open>logs\<close> array holds: references to receipt logs while
  stitching, enriched copies after enrichment.

  The call tree comes from parsed JSON, so no node object occurs twice in it and a node
  object is identified by its position: the child indices that lead to it from the root
  (for a list of roots, the index of the root first). In-place mutation of a node is an
  update of the tree at that position, and the \<open>Map\<close> from path keys to node objects holds
  positions. A JavaScript \<open>Map\<close> keeps insertion order and \<open>set\<close> on a present key
  overwrites in place, which is \<open>AList.update\<close>.
\<close>

datatype 'l CallNode = CallNode
  (node_method: "string option")
  (node_type: "string option")
  (node_from: "string option")
  (node_to: "string option")
  (node_input: "string option")
  (node_calls: "'l CallNode list option")
  (node_logs: "'l list option")
  (node_path: "nat list option")

datatype 'l CallTracerRoot = Single "'l CallNode" | Many "'l CallNode list"

type_synonym pathMap = "(string \<times> nat list) list"

definition set_method :: "string option \<Rightarrow> 'l CallNode \<Rightarrow> 'l CallNode" where
  "set_method v n = CallNode v (node_type n) (node_from n) (node_to n) (node_input n)
                      (node_calls n) (node_logs n) (node_path n)"

definition set_calls :: "'l CallNode list option \<Rightarrow> 'l CallNode \<Rightarrow> 'l CallNode" where
  "set_calls v n = CallNode (node_method n) (node_type n) (node_from n) (node_to n) (node_input n)
                     v (node_logs n) (node_path n)"

definition set_logs :: "'l list option \<Rightarrow> 'l CallNode \<Rightarrow> 'l CallNode" where
  "set_logs v n = CallNode (node_method n) (node_type n) (node_from n) (node_to n) (node_input n)
                    (node_calls n) v (node_path n)"

definition set_path :: "nat list option \<Rightarrow> 'l CallNode \<Rightarrow> 'l CallNode" where
  "set_path v n = CallNode (node_method n) (node_type n) (node_from n) (node_to n) (node_input n)
                    (node_calls n) (node_logs n) v"

text \<open>\<open>node.calls ?? []\<close>\<close>

definition kids :: "'l CallNode \<Rightarrow> 'l CallNode list" where
  "kids n = (case node_calls n of None \<Rightarrow> [] | Some ks \<Rightarrow> ks)"

fun node_at :: "nat list \<Rightarrow> 'l CallNode \<Rightarrow> 'l CallNode option" where
  "node_at [] n = Some n"
| "node_at (i # p) n = (if i < length (kids n) then node_at p (kids n ! i) else None)"

fun update_at :: "nat list \<Rightarrow> ('l CallNode \<Rightarrow> 'l CallNode) \<Rightarrow> 'l CallNode \<Rightarrow> 'l CallNode" where
  "update_at [] f n = f n"
| "update_at (i # p) f n =
     (case node_calls n of
        None \<Rightarrow> n
      | Some ks \<Rightarrow> if i < length ks then set_calls (Some (ks[i := update_at p f (ks ! i)])) n else n)"

fun root_node_at :: "'l CallTracerRoot \<Rightarrow> nat list \<Rightarrow> 'l CallNode option" where
  "root_node_at (Single n) p = node_at p n"
| "root_node_at (Many ns) [] = None"
| "root_node_at (Many ns) (i # p) = (if i < length ns then node_at p (ns ! i) else None)"

fun root_update_at ::
  "nat list \<Rightarrow> ('l CallNode \<Rightarrow> 'l CallNode) \<Rightarrow> 'l CallTracerRoot \<Rightarrow> 'l CallTracerRoot" where
  "root_update_at p f (Single n) = Single (update_at p f n)"
| "root_update_at [] f (Many ns) = Many ns"
| "root_update_at (i # p) f (Many ns) =
     (if i < length ns then Many (ns[i := update_at p f (ns ! i)]) else Many ns)"

text \<open>
  Lines 178-183: \<open>visit\<close> sets the node's \<open>_path\<close>, registers the node under the key of its
  prefix and visits the children in order; \<open>visit_kids\<close> is its \<open>for\<close> loop, from index \<open>i\<close>.
\<close>

fun visit :: "'l CallNode \<Rightarrow> nat list \<Rightarrow> pathMap \<Rightarrow> 'l CallNode \<times> pathMap"
  and visit_kids :: "'l CallNode list \<Rightarrow> nat \<Rightarrow> nat list \<Rightarrow> pathMap \<Rightarrow> 'l CallNode list \<times> pathMap" where
  "visit (CallNode m t f to inp cs ls pth) prefix pm =
     (let pm1 = AList.update (path_key prefix) prefix pm in
      case cs of
        None \<Rightarrow> (CallNode m t f to inp None ls (Some prefix), pm1)
      | Some ks \<Rightarrow>
          (case visit_kids ks 0 prefix pm1 of
             (ks', pm2) \<Rightarrow> (CallNode m t f to inp (Some ks') ls (Some prefix), pm2)))"
| "visit_kids [] i prefix pm = ([], pm)"
| "visit_kids (k # ks) i prefix pm =
     (case visit k (prefix @ [i]) pm of
        (k', pm1) \<Rightarrow>
          (case visit_kids ks (i + 1) prefix pm1 of
             (ks', pm2) \<Rightarrow> (k' # ks', pm2)))"

text \<open>
  Lines 175-196. For a list of roots the loop calls \<open>visit(root[i], [i])\<close>, which is the
  loop over the children of a node with the empty prefix.
\<close>

fun annotateCallPaths :: "'l CallTracerRoot \<Rightarrow> 'l CallTracerRoot \<times> pathMap" where
  "annotateCallPaths (Many ns) = (case visit_kids ns 0 [] [] of (ns', pm) \<Rightarrow> (Many ns', pm))"
| "annotateCallPaths (Single n) = (case visit n [] [] of (n', pm) \<Rightarrow> (Single n', pm))"

section \<open>Stitching receipt logs into the call tree (\<open>stitchLogsIntoCallTrace\<close>)\<close>

text \<open>
  Receipt logs are objects of the caller. They live in a store, a function from references
  to log objects, and the receipt's \<open>logs\<close> array and the \<open>logs\<close> arrays of the nodes hold
  references. The optional \<open>logIndex\<close> is never read and is left out.
\<close>

record ReceiptLog =
  address :: string
  topics :: "string list"
  data :: string

type_synonym log_ref = nat
type_synonym log_store = "log_ref \<Rightarrow> ReceiptLog"

record TxReceipt =
  logs :: "log_ref list"

record InjectResult =
  root :: "log_ref CallTracerRoot"
  warnings :: "string list"

datatype stitch_error = Thrown error | AggregatedWarnings string

text \<open>\<open>String.prototype.toLowerCase\<close> on the ASCII range.\<close>

definition lower_char :: "char \<Rightarrow> char" where
  "lower_char c = (let n = (of_char c :: nat) in if 65 \<le> n \<and> n \<le> 90 then char_of (n + 32) else c)"

definition toLowerCase :: "string \<Rightarrow> string" where
  "toLowerCase s = map lower_char s"

text \<open>Lines 199-205.\<close>

definition expectedLogAddressForNode :: "'l CallNode \<Rightarrow> string option" where
  "expectedLogAddressForNode n =
     (if node_type n = Some ''DELEGATECALL'' \<or> node_type n = Some ''CALLCODE''
      then map_option toLowerCase (node_from n)
      else map_option toLowerCase (node_to n))"

definition newline :: string where
  "newline = [CHR 0x0A]"

definition count_mismatch_msg :: "nat \<Rightarrow> nat \<Rightarrow> string" where
  "count_mismatch_msg E L =
     ''events from structLogs ('' @ show_nat E @ '') != receipt logs ('' @ show_nat L @
     ''). Will attach sequentially.''"

definition no_node_msg :: "string \<Rightarrow> nat \<Rightarrow> string" where
  "no_node_msg key li = ''no callTracer node for path ['' @ key @ ''] at receipt log #'' @ show_nat li"

definition address_mismatch_msg :: "string \<Rightarrow> string \<Rightarrow> string \<Rightarrow> nat \<Rightarrow> string" where
  "address_mismatch_msg key expected got li =
     ''address mismatch at path ['' @ key @ '']: expected '' @ expected @ '', got '' @ got @
     '' (log #'' @ show_nat li @ '')''"

definition leftover_msg :: "nat \<Rightarrow> string" where
  "leftover_msg li = ''leftover receipt log #'' @ show_nat li @ '' not mapped''"

text \<open>
  Lines 254-258: \<open>expectedAddr && log.address && expectedAddr !== log.address.toLowerCase()\<close>;
  an absent or empty string is falsy.
\<close>

definition address_check_fails :: "string option \<Rightarrow> ReceiptLog \<Rightarrow> bool" where
  "address_check_fails expectedAddr log =
     (case expectedAddr of
        None \<Rightarrow> False
      | Some a \<Rightarrow> a \<noteq> [] \<and> address log \<noteq> [] \<and> a \<noteq> toLowerCase (address log))"

text \<open>Line 236: \<open>for (const [, node] of pathMap) node.logs = []\<close>.\<close>

definition init_logs :: "pathMap \<Rightarrow> log_ref CallTracerRoot \<Rightarrow> log_ref CallTracerRoot" where
  "init_logs pm r = fold (\<lambda>(key, pos) r'. root_update_at pos (set_logs (Some [])) r') pm r"

text \<open>
  Lines 242-263: the body of the attachment loop, for the event \<open>e\<close> and the log reference
  \<open>lref\<close> at index \<open>li\<close>. A reference held by the map always denotes a node of the tree, and
  that node's \<open>logs\<close> array has been initialised; the two \<open>TypeError\<close> branches stand for
  the accesses that would fail otherwise.
\<close>

definition attach_one ::
  "pathMap \<Rightarrow> log_store \<Rightarrow> EventPath \<Rightarrow> log_ref \<Rightarrow> nat \<Rightarrow> InjectResult \<Rightarrow> error + InjectResult" where
  "attach_one pm h e lref li st =
     (let key = path_key (callPath e) in
      case map_of pm key of
        None \<Rightarrow> Inr (st\<lparr>warnings := warnings st @ [no_node_msg key li]\<rparr>)
      | Some pos \<Rightarrow>
          (case root_node_at (root st) pos of
             None \<Rightarrow> Inl TypeError
           | Some node \<Rightarrow>
               let log = h lref;
                   expectedAddr = expectedLogAddressForNode node;
                   ws = (if address_check_fails expectedAddr log
                         then warnings st @
                              [address_mismatch_msg key (the expectedAddr) (toLowerCase (address log)) li]
                         else warnings st)
               in (case node_logs node of
                     None \<Rightarrow> Inl TypeError
                   | Some ls \<Rightarrow>
                       Inr \<lparr>root = root_update_at pos (set_logs (Some (ls @ [lref]))) (root st),
                            warnings = ws\<rparr>)))"

text \<open>Line 241: \<open>for (let i = 0; i < events.length && li < logs.length; i++, li++)\<close>.\<close>

fun attach_loop ::
  "pathMap \<Rightarrow> log_store \<Rightarrow> EventPath list \<Rightarrow> log_ref list \<Rightarrow> nat \<Rightarrow> InjectResult \<Rightarrow> error + InjectResult" where
  "attach_loop pm h (e # es) (lref # lrefs) li st =
     (case attach_one pm h e lref li st of
        Inl err \<Rightarrow> Inl err
      | Inr st' \<Rightarrow> attach_loop pm h es lrefs (li + 1) st')"
| "attach_loop pm h es lrefs li st = Inr st"

text \<open>
  Lines 224-277, after the events have been derived. The result carries the store as it is
  when the function returns.
\<close>

definition stitch_events ::
  "log_ref CallTracerRoot \<Rightarrow> EventPath list \<Rightarrow> TxReceipt \<Rightarrow> bool \<Rightarrow> log_store \<Rightarrow>
   stitch_error + InjectResult \<times> log_store" where
  "stitch_events callsFromCallTracer evs receipt suppressWarnings h =
     (case annotateCallPaths callsFromCallTracer of
        (r0, pm) \<Rightarrow>
          let E = length evs; L = length (logs receipt);
              ws0 = (if E \<noteq> L then [count_mismatch_msg E L] else []);
              r1 = init_logs pm r0
          in (case attach_loop pm h evs (logs receipt) 0 \<lparr>root = r1, warnings = ws0\<rparr> of
                Inl err \<Rightarrow> Inl (Thrown err)
              | Inr st \<Rightarrow>
                  let ws = warnings st @ map leftover_msg [min E L ..< L]
                  in if ws \<noteq> [] \<and> \<not> suppressWarnings
                     then Inl (AggregatedWarnings
                                (''Warnings during stitchLogsIntoCallTrace:'' @ newline @ join ws newline))
                     else Inr (\<lparr>root = root st, warnings = ws\<rparr>, h)))"

definition stitchLogsIntoCallTrace ::
  "log_ref CallTracerRoot \<Rightarrow> StructLogStep list \<Rightarrow> TxReceipt \<Rightarrow> bool \<Rightarrow> log_store \<Rightarrow>
   (stitch_error + InjectResult \<times> log_store) option" where
  "stitchLogsIntoCallTrace callsFromCallTracer structLogs receipt suppressWarnings h =
     (case deriveEventPathsRevertAware structLogs of
        None \<Rightarrow> None
      | Some (Inl err) \<Rightarrow> Some (Inl (Thrown err))
      | Some (Inr evs) \<Rightarrow> Some (stitch_events callsFromCallTracer evs receipt suppressWarnings h))"

section \<open>Enrichment (\<open>enrichTraceWithCallAndEventDetails\<close>)\<close>

text \<open>
  The lookup tables are maps; the parser of a topic is a function of the caller, into a
  type \<open>'p\<close> of decoded parameters. \<open>log.topics[0]\<close> of an empty topic list is \<open>undefined\<close>,
  which as a property name is the string \<open>undefined\<close>.
\<close>

datatype 'p parsed = Decoded string 'p | Raw "string list" string

datatype 'p EnrichedLog = EnrichedLog (log_fields: ReceiptLog) (parsed: "'p parsed")

text \<open>Lines 293-300.\<close>

definition getMethodName :: "(string \<rightharpoonup> string) \<Rightarrow> string \<Rightarrow> string" where
  "getMethodName selectors input =
     (if input = [] \<or> length input < 10 then ''unknown''
      else let selector = take 10 input
           in (case selectors selector of Some name \<Rightarrow> name | None \<Rightarrow> selector))"

text \<open>Lines 302-317.\<close>

definition parseEvent ::
  "(string \<rightharpoonup> string \<times> (ReceiptLog \<Rightarrow> 'p)) \<Rightarrow> ReceiptLog \<Rightarrow> 'p parsed" where
  "parseEvent topic_table log =
     (let code = (case topics log of [] \<Rightarrow> ''undefined'' | t # _ \<Rightarrow> t)
      in case topic_table code of
           Some (name, parser) \<Rightarrow> Decoded name (parser log)
         | None \<Rightarrow> Raw (topics log) (data log))"

text \<open>
  Lines 318-335. \<open>call.input ? getMethodName(call.input) : call.input?.substring(0, 10)\<close>:
  an absent input gives \<open>undefined\<close>, an empty input gives the empty string.
\<close>

fun enrichCall ::
  "(string \<rightharpoonup> string) \<Rightarrow> (string \<rightharpoonup> string \<times> (ReceiptLog \<Rightarrow> 'p)) \<Rightarrow>
   ReceiptLog CallNode \<Rightarrow> 'p EnrichedLog CallNode" where
  "enrichCall selectors topic_table (CallNode m t f to inp cs ls pth) =
     CallNode
       (case inp of
          None \<Rightarrow> None
        | Some i \<Rightarrow> if i = [] then Some (take 10 i) else Some (getMethodName selectors i))
       t f to inp
       (map_option (map (enrichCall selectors topic_table)) cs)
       (map_option (map (\<lambda>log. EnrichedLog log (parseEvent topic_table log))) ls)
       pth"

fun enrichTraceWithCallAndEventDetails ::
  "ReceiptLog CallTracerRoot \<Rightarrow> (string \<rightharpoonup> string) \<Rightarrow> (string \<rightharpoonup> string \<times> (ReceiptLog \<Rightarrow> 'p)) \<Rightarrow>
   'p EnrichedLog CallTracerRoot" where
  "enrichTraceWithCallAndEventDetails (Many ns) selectors topic_table =
     Many (map (enrichCall selectors topic_table) ns)"
| "enrichTraceWithCallAndEventDetails (Single n) selectors topic_table =
     Single (enrichCall selectors topic_table n)"

section \<open>Auxiliary definitions\<close>

text \<open>
  Invariants of the loop state, the decomposition of the warning list, the attachments of a
  position and the inputs of the examples.
\<close>

definition idx_ok :: "Frame list \<Rightarrow> Event list \<Rightarrow> bool" where
  "idx_ok fs evs = (\<forall>f \<in> set fs. \<forall>i \<in> set (logsIdx f). i < length evs)"

definition wf_state :: "LoopState \<Rightarrow> bool" where
  "wf_state st =
     (frames st \<noteq> [] \<and> idx_ok (frames st) (events st) \<and> path (hd (frames st)) = [] \<and>
      (\<forall>p i. pending st = Some (p, i) \<longrightarrow> p < length (frames st)))"



definition node_fields ::
  "'l CallNode \<Rightarrow> string option \<times> string option \<times> string option \<times> string option \<times> string option \<times> 'l list option" where
  "node_fields n = (node_method n, node_type n, node_from n, node_to n, node_input n, node_logs n)"

definition visited :: "nat list \<Rightarrow> 'l CallNode \<Rightarrow> 'l CallNode \<Rightarrow> bool" where
  "visited prefix n n' =
     (\<forall>q. (node_at q n = None \<longrightarrow> node_at q n' = None) \<and>
          (\<forall>m. node_at q n = Some m \<longrightarrow>
               (\<exists>m'. node_at q n' = Some m' \<and> node_fields m' = node_fields m \<and>
                     node_path m' = Some (prefix @ q))))"

text \<open>The index of a call tree: a path resolves exactly when the tree has a node there.\<close>

definition annotated :: "'l CallTracerRoot \<Rightarrow> 'l CallTracerRoot \<Rightarrow> bool" where
  "annotated c r0 =
     (\<forall>q. (root_node_at c q = None \<longrightarrow> root_node_at r0 q = None) \<and>
          (\<forall>m. root_node_at c q = Some m \<longrightarrow>
               (\<exists>m'. root_node_at r0 q = Some m' \<and> node_fields m' = node_fields m \<and>
                     node_path m' = Some q)))"

definition pair_warnings ::
  "'l CallTracerRoot \<Rightarrow> log_store \<Rightarrow> EventPath \<Rightarrow> log_ref \<Rightarrow> nat \<Rightarrow> string list" where
  "pair_warnings c h e lref li =
     (let key = path_key (callPath e) in
      case root_node_at c (callPath e) of
        None \<Rightarrow> [no_node_msg key li]
      | Some node \<Rightarrow>
          if address_check_fails (expectedLogAddressForNode node) (h lref)
          then [address_mismatch_msg key (the (expectedLogAddressForNode node))
                  (toLowerCase (address (h lref))) li]
          else [])"

definition attached_at :: "EventPath list \<Rightarrow> log_ref list \<Rightarrow> nat list \<Rightarrow> log_ref list" where
  "attached_at evs lrefs q =
     map (\<lambda>i. lrefs ! i) (filter (\<lambda>i. callPath (evs ! i) = q) [0 ..< min (length evs) (length lrefs)])"

text \<open>The tree \<open>r\<close> has the nodes of \<open>c\<close>, with the same call data, and \<open>A q\<close> attached at \<open>q\<close>.\<close>

definition holds_logs ::
  "'l CallTracerRoot \<Rightarrow> log_ref CallTracerRoot \<Rightarrow> (nat list \<Rightarrow> log_ref list) \<Rightarrow> bool" where
  "holds_logs c r A =
     (\<forall>q. (root_node_at c q = None \<longrightarrow> root_node_at r q = None) \<and>
          (\<forall>m. root_node_at c q = Some m \<longrightarrow>
               (\<exists>m'. root_node_at r q = Some m' \<and> node_type m' = node_type m \<and>
                     node_from m' = node_from m \<and> node_to m' = node_to m \<and>
                     node_logs m' = Some (A q))))"

text \<open>The warnings and the attachments of the loop, by recursion on the two lists.\<close>

fun loop_warnings ::
  "'l CallTracerRoot \<Rightarrow> log_store \<Rightarrow> EventPath list \<Rightarrow> log_ref list \<Rightarrow> nat \<Rightarrow> string list" where
  "loop_warnings c h (e # es) (l # ls) li = pair_warnings c h e l li @ loop_warnings c h es ls (li + 1)"
| "loop_warnings c h es ls li = []"

fun loop_attached :: "EventPath list \<Rightarrow> log_ref list \<Rightarrow> nat list \<Rightarrow> log_ref list" where
  "loop_attached (e # es) (l # ls) q = (if callPath e = q then [l] else []) @ loop_attached es ls q"
| "loop_attached es ls q = []"

definition stitch_warnings ::
  "'l CallTracerRoot \<Rightarrow> log_store \<Rightarrow> EventPath list \<Rightarrow> log_ref list \<Rightarrow> string list" where
  "stitch_warnings c h evs lrefs =
     (if length evs \<noteq> length lrefs then [count_mismatch_msg (length evs) (length lrefs)] else []) @
     concat (map (\<lambda>i. pair_warnings c h (evs ! i) (lrefs ! i) i) [0 ..< min (length evs) (length lrefs)]) @
     map leftover_msg [min (length evs) (length lrefs) ..< length lrefs]"

definition example_store :: log_store where
  "example_store = (\<lambda>r. \<lparr>address = ''0xAB'', topics = [], data = ''0x''\<rparr>)"


definition two_log_trace :: "StructLogStep list" where
  "two_log_trace =
     [\<lparr>op = ''LOG1'', depth = 1, pc = 0\<rparr>, \<lparr>op = ''CALL'', depth = 1, pc = 1\<rparr>,
      \<lparr>op = ''LOG2'', depth = 2, pc = 0\<rparr>, \<lparr>op = ''STOP'', depth = 2, pc = 1\<rparr>,
      \<lparr>op = ''STOP'', depth = 1, pc = 2\<rparr>]"

definition one_log_trace :: "StructLogStep list" where
  "one_log_trace = [\<lparr>op = ''LOG1'', depth = 1, pc = 0\<rparr>]"

definition call_node :: "log_ref CallNode" where
  "call_node = CallNode None (Some ''CALL'') (Some ''0x01'') (Some ''0xab'') None None None None"

section \<open>Lemmas\<close>

lemma digit_char_inj: "a < 10 \<Longrightarrow> b < 10 \<Longrightarrow> digit_char a = digit_char b \<Longrightarrow> a = b"
proof -
  assume a: "a < 10" and b: "b < 10" and e: "digit_char a = digit_char b"
  from e have "(of_char (digit_char a) :: nat) = of_char (digit_char b)" by simp
  with a b show "a = b" by (simp add: digit_char_def)
qed

lemma digit_char_not_slash: "a < 10 \<Longrightarrow> digit_char a \<noteq> CHR ''/''"
proof
  assume a: "a < 10" and e: "digit_char a = CHR ''/''"
  from e have "(of_char (digit_char a) :: nat) = of_char (CHR ''/'')" by simp
  with a show False by (simp add: digit_char_def)
qed

lemma show_nat_nonempty: "show_nat n \<noteq> []"
  by (subst show_nat.simps) simp

lemma show_nat_no_slash: "CHR ''/'' \<notin> set (show_nat n)"
proof (induction n rule: show_nat.induct)
  case (1 n)
  show ?case
  proof (cases "n < 10")
    case True
    then show ?thesis using digit_char_not_slash [of n] by (subst show_nat.simps) auto
  next
    case False
    then show ?thesis using 1 digit_char_not_slash [of "n mod 10"]
      by (subst show_nat.simps) auto
  qed
qed

lemma show_nat_inj: "show_nat n = show_nat m \<Longrightarrow> n = m"
proof (induction n arbitrary: m rule: show_nat.induct)
  case (1 n)
  show ?case
  proof (cases "n < 10")
    case n: True
    show ?thesis
    proof (cases "m < 10")
      case True
      with n 1(2) show ?thesis
        by (simp add: show_nat.simps [of n] show_nat.simps [of m] digit_char_inj)
    next
      case False
      with n 1(2) show_nat_nonempty [of "m div 10"] show ?thesis
        by (simp add: show_nat.simps [of n] show_nat.simps [of m])
    qed
  next
    case n: False
    show ?thesis
    proof (cases "m < 10")
      case True
      with n 1(2) show_nat_nonempty [of "n div 10"] show ?thesis
        by (simp add: show_nat.simps [of n] show_nat.simps [of m])
    next
      case False
      with n 1(2) have e: "show_nat (n div 10) = show_nat (m div 10)"
        and d: "digit_char (n mod 10) = digit_char (m mod 10)"
        by (simp_all add: show_nat.simps [of n] show_nat.simps [of m])
      from 1(1) [OF n e] have "n div 10 = m div 10" .
      moreover from d have "n mod 10 = m mod 10" by (intro digit_char_inj) simp_all
      ultimately show ?thesis by (metis div_mult_mod_eq)
    qed
  qed
qed

lemma split_at_sep:
  "c \<notin> set x \<Longrightarrow> c \<notin> set y \<Longrightarrow> x @ c # r = y @ c # r' \<Longrightarrow> x = y \<and> r = r'"
proof (induction x arbitrary: y)
  case Nil
  then show ?case by (cases y) auto
next
  case (Cons a x)
  then show ?case by (cases y) auto
qed

lemma join_Cons:
  "join (x # xs) sep = (if xs = [] then x else x @ sep @ join xs sep)"
  by (cases xs) simp_all

lemma join_no_sep_inj:
  fixes c :: char
  shows "\<forall>x \<in> set xs. x \<noteq> [] \<and> c \<notin> set x \<Longrightarrow> \<forall>y \<in> set ys. y \<noteq> [] \<and> c \<notin> set y \<Longrightarrow>
    join xs [c] = join ys [c] \<Longrightarrow> xs = ys"
proof (induction xs arbitrary: ys)
  case Nil
  then show ?case by (cases ys) (auto simp: join_Cons split: if_splits)
next
  case (Cons x xs)
  show ?case
  proof (cases ys)
    case Nil
    with Cons.prems show ?thesis by (auto simp: join_Cons split: if_splits)
  next
    case ys: (Cons y ys')
    have nx: "c \<notin> set x" and ny: "c \<notin> set y" using Cons.prems ys by auto
    show ?thesis
    proof (cases "xs = []")
      case True
      show ?thesis
      proof (cases "ys' = []")
        case True
        with \<open>xs = []\<close> ys Cons.prems show ?thesis by simp
      next
        case False
        with \<open>xs = []\<close> ys Cons.prems(3) have "x = y @ c # join ys' [c]" by (simp add: join_Cons)
        with nx show ?thesis by auto
      qed
    next
      case False
      show ?thesis
      proof (cases "ys' = []")
        case True
        with \<open>xs \<noteq> []\<close> ys Cons.prems(3) have "y = x @ c # join xs [c]" by (simp add: join_Cons)
        with ny show ?thesis by auto
      next
        case ne: False
        with \<open>xs \<noteq> []\<close> ys Cons.prems(3) have "x @ c # join xs [c] = y @ c # join ys' [c]"
          by (simp add: join_Cons)
        from split_at_sep [OF nx ny this] have xy: "x = y" and j: "join xs [c] = join ys' [c]" by auto
        have "xs = ys'" using Cons.IH [of ys'] Cons.prems ys j by auto
        with xy ys show ?thesis by simp
      qed
    qed
  qed
qed

lemma path_key_inj: "path_key p = path_key q \<Longrightarrow> p = q"
proof -
  assume "path_key p = path_key q"
  then have "join (map show_nat p) [CHR ''/''] = join (map show_nat q) [CHR ''/'']"
    by (simp add: path_key_def)
  then have "map show_nat p = map show_nat q"
    by (intro join_no_sep_inj [where c = "CHR ''/''"]) (auto simp: show_nat_nonempty show_nat_no_slash)
  then show "p = q" by (simp add: inj_on_def show_nat_inj inj_map_eq_map [of show_nat] injI)
qed

lemma mark_dropped_ok:
  "\<forall>i \<in> set is. i < length evs \<Longrightarrow>
   \<exists>evs'. mark_dropped is evs = Inr evs' \<and> length evs' = length evs \<and>
     (\<forall>j < length evs. evs' ! j = (if j \<in> set is then (evs ! j)\<lparr>dropped := True\<rparr> else evs ! j))"
proof (induction "is" arbitrary: evs)
  case Nil
  then show ?case by simp
next
  case (Cons i "is")
  let ?evs = "evs[i := (evs ! i)\<lparr>dropped := True\<rparr>]"
  have "\<forall>k \<in> set is. k < length ?evs" using Cons.prems by simp
  from Cons.IH [OF this] obtain evs' where
    m: "mark_dropped is ?evs = Inr evs'" and l: "length evs' = length ?evs"
    and p: "\<forall>j < length ?evs. evs' ! j = (if j \<in> set is then (?evs ! j)\<lparr>dropped := True\<rparr> else ?evs ! j)"
    by blast
  have "mark_dropped (i # is) evs = Inr evs'" using m Cons.prems by simp
  moreover have "length evs' = length evs" using l by simp
  moreover have "\<forall>j < length evs. evs' ! j = (if j \<in> set (i # is) then (evs ! j)\<lparr>dropped := True\<rparr> else evs ! j)"
  proof (intro allI impI)
    fix j assume j: "j < length evs"
    with p have pj: "evs' ! j = (if j \<in> set is then (?evs ! j)\<lparr>dropped := True\<rparr> else ?evs ! j)" by simp
    show "evs' ! j = (if j \<in> set (i # is) then (evs ! j)\<lparr>dropped := True\<rparr> else evs ! j)"
    proof (cases "j = i")
      case True
      with pj j show ?thesis by simp
    next
      case False
      with pj j show ?thesis by simp
    qed
  qed
  ultimately show ?case by blast
qed

lemma pop_frames_total:
  "1 \<le> d \<Longrightarrow> fs \<noteq> [] \<Longrightarrow> idx_ok fs evs \<Longrightarrow>
   \<exists>evs'. pop_frames d fs evs = Some (Inr (take (nat d) fs, evs')) \<and> length evs' = length evs \<and>
     (\<forall>j < length evs. evs' ! j =
        (if \<exists>f \<in> set (drop (nat d) fs). reverted f \<and> j \<in> set (logsIdx f)
         then (evs ! j)\<lparr>dropped := True\<rparr> else evs ! j))"
proof (induction fs arbitrary: evs rule: rev_induct)
  case Nil
  then show ?case by simp
next
  case (snoc f gs)
  show ?case
  proof (cases "int (length (gs @ [f])) - 1 > d - 1")
    case False
    then have "pop_frames d (gs @ [f]) evs = Some (Inr (gs @ [f], evs))"
      by (subst pop_frames.simps) simp
    moreover from False have "take (nat d) (gs @ [f]) = gs @ [f]" "drop (nat d) (gs @ [f]) = []"
      by auto
    ultimately show ?thesis by simp
  next
    case True
    then have len: "nat d \<le> length gs" using snoc.prems(1) by auto
    with snoc.prems(1) have gs: "gs \<noteq> []" by auto
    have tk: "take (nat d) (gs @ [f]) = take (nat d) gs" using len by simp
    have dr: "drop (nat d) (gs @ [f]) = drop (nat d) gs @ [f]" using len by simp
    have ok_gs: "\<And>evs'. length evs' = length evs \<Longrightarrow> idx_ok gs evs'"
      using snoc.prems(3) by (auto simp: idx_ok_def)
    show ?thesis
    proof (cases "reverted f")
      case False
      with True have e: "pop_frames d (gs @ [f]) evs = pop_frames d gs evs"
        by (subst pop_frames.simps) simp
      from snoc.IH [OF snoc.prems(1) gs ok_gs [OF refl]] obtain evs' where
        "pop_frames d gs evs = Some (Inr (take (nat d) gs, evs'))" "length evs' = length evs"
        "\<forall>j < length evs. evs' ! j =
          (if \<exists>g \<in> set (drop (nat d) gs). reverted g \<and> j \<in> set (logsIdx g)
           then (evs ! j)\<lparr>dropped := True\<rparr> else evs ! j)" by blast
      with e tk dr False show ?thesis by auto
    next
      case rv: True
      have "\<forall>i \<in> set (logsIdx f). i < length evs" using snoc.prems(3) by (simp add: idx_ok_def)
      from mark_dropped_ok [OF this] obtain evs1 where
        m: "mark_dropped (logsIdx f) evs = Inr evs1" and l1: "length evs1 = length evs"
        and p1: "\<forall>j < length evs. evs1 ! j = (if j \<in> set (logsIdx f) then (evs ! j)\<lparr>dropped := True\<rparr> else evs ! j)"
        by blast
      from True rv m have e: "pop_frames d (gs @ [f]) evs = pop_frames d gs evs1"
        by (subst pop_frames.simps) simp
      from snoc.IH [OF snoc.prems(1) gs ok_gs [OF l1]] obtain evs' where
        r: "pop_frames d gs evs1 = Some (Inr (take (nat d) gs, evs'))" and l2: "length evs' = length evs1"
        and p2: "\<forall>j < length evs1. evs' ! j =
          (if \<exists>g \<in> set (drop (nat d) gs). reverted g \<and> j \<in> set (logsIdx g)
           then (evs1 ! j)\<lparr>dropped := True\<rparr> else evs1 ! j)" by blast
      have "\<forall>j < length evs. evs' ! j =
        (if \<exists>g \<in> set (drop (nat d) (gs @ [f])). reverted g \<and> j \<in> set (logsIdx g)
         then (evs ! j)\<lparr>dropped := True\<rparr> else evs ! j)"
        using p1 p2 l1 rv dr by auto
      with e r tk l1 l2 show ?thesis by auto
    qed
  qed
qed

lemma resolve_pending_wf:
  assumes "wf_state st"
  shows "\<exists>st1. resolve_pending d st = Inr st1 \<and> wf_state st1 \<and> pending st1 = None \<and>
           events st1 = events st \<and> prevDepth st1 = prevDepth st"
  using assms
  by (cases "pending st") (auto simp: resolve_pending_def wf_state_def idx_ok_def hd_append)

lemma unwind_wf:
  assumes "wf_state st" "1 \<le> depth s"
  shows "\<exists>st1. unwind s st = Some (Inr st1) \<and> wf_state st1 \<and> pending st1 = None \<and>
           length (events st1) = length (events st)"
proof -
  from resolve_pending_wf [OF assms(1)] obtain st0 where
    r: "resolve_pending (depth s) st = Inr st0" and w: "wf_state st0" and p: "pending st0 = None"
    and e: "events st0 = events st" by blast
  from w have "frames st0 \<noteq> []" "idx_ok (frames st0) (events st0)" by (auto simp: wf_state_def)
  from pop_frames_total [OF assms(2) this] obtain evs' where
    pf: "pop_frames (depth s) (frames st0) (events st0) = Some (Inr (take (nat (depth s)) (frames st0), evs'))"
    and l: "length evs' = length (events st0)" by blast
  let ?st1 = "st0\<lparr>frames := take (nat (depth s)) (frames st0), events := evs'\<rparr>"
  have "unwind s st = Some (Inr ?st1)" using r pf by (simp add: unwind_def)
  moreover have "wf_state ?st1" using w l assms(2) p
    by (auto simp: wf_state_def idx_ok_def dest: in_set_takeD)
  moreover have "pending ?st1 = None" using p by simp
  moreover have "length (events ?st1) = length (events st)" using l e by simp
  ultimately show ?thesis by blast
qed

lemma idx_ok_update:
  "idx_ok fs evs \<Longrightarrow> \<forall>i \<in> set (logsIdx f'). i < length evs \<Longrightarrow> idx_ok (fs[k := f']) evs"
  unfolding idx_ok_def using set_update_subset_insert [of fs k f'] by auto

lemma idx_ok_mono: "idx_ok fs evs \<Longrightarrow> length evs \<le> length evs' \<Longrightarrow> idx_ok fs evs'"
  unfolding idx_ok_def by fastforce

lemma idx_ok_last: "idx_ok fs evs \<Longrightarrow> fs \<noteq> [] \<Longrightarrow> i \<in> set (logsIdx (last fs)) \<Longrightarrow> i < length evs"
  unfolding idx_ok_def using last_in_set by blast

lemma hd_update_path:
  "fs \<noteq> [] \<Longrightarrow> path f' = path (fs ! k) \<Longrightarrow> path (hd (fs[k := f'])) = path (hd fs)"
  by (cases fs; cases k) simp_all

lemma enter_call_wf:
  assumes "wf_state st"
  shows "\<exists>st1. enter_call opc st = Inr st1 \<and> wf_state st1 \<and> events st1 = events st"
proof (cases "opc \<in> ENTER")
  case False
  with assms show ?thesis by (simp add: enter_call_def)
next
  case True
  let ?k = "length (frames st) - 1"
  let ?f = "(frames st ! ?k)\<lparr>nextChild := nextChild (frames st ! ?k) + 1\<rparr>"
  let ?st1 = "st\<lparr>frames := (frames st)[?k := ?f], pending := Some (?k, nextChild (frames st ! ?k))\<rparr>"
  from assms have ne: "frames st \<noteq> []" and ok: "idx_ok (frames st) (events st)"
    and rt: "path (hd (frames st)) = []" by (auto simp: wf_state_def)
  have e: "enter_call opc st = Inr ?st1" using True ne by (simp add: enter_call_def Let_def)
  have "\<forall>i \<in> set (logsIdx ?f). i < length (events st)"
    using idx_ok_last [OF ok ne] ne by (simp add: last_conv_nth)
  from idx_ok_update [OF ok this] have "idx_ok (frames ?st1) (events ?st1)" by simp
  moreover have "path (hd (frames ?st1)) = []" using hd_update_path [OF ne, of ?f ?k] rt by simp
  ultimately have "wf_state ?st1" using ne by (simp add: wf_state_def)
  with e show ?thesis by auto
qed

lemma capture_log_wf:
  assumes "wf_state st"
  shows "\<exists>st1. capture_log s st = Inr st1 \<and> wf_state st1"
proof (cases "startsWith (op s) ''LOG''")
  case False
  with assms show ?thesis by (simp add: capture_log_def)
next
  case True
  let ?k = "length (frames st) - 1"
  let ?f = "(last (frames st))\<lparr>logsIdx := logsIdx (last (frames st)) @ [length (events st)]\<rparr>"
  let ?evs = "events st @ [\<lparr>ev_op = op s, ev_pc = pc s, ev_depth = depth s,
                          ev_callPath = path (last (frames st)), dropped = False\<rparr>]"
  let ?st1 = "st\<lparr>frames := (frames st)[?k := ?f], events := ?evs\<rparr>"
  from assms have ne: "frames st \<noteq> []" and ok: "idx_ok (frames st) (events st)"
    and rt: "path (hd (frames st)) = []"
    and pd: "\<forall>p i. pending st = Some (p, i) \<longrightarrow> p < length (frames st)" by (auto simp: wf_state_def)
  have e: "capture_log s st = Inr ?st1" using True ne by (simp add: capture_log_def Let_def)
  have ok': "idx_ok (frames st) ?evs" using idx_ok_mono [OF ok, of ?evs] by simp
  have "\<forall>i \<in> set (logsIdx ?f). i < length ?evs"
    using idx_ok_last [OF ok ne] by (auto simp: less_Suc_eq)
  from idx_ok_update [OF ok' this] have "idx_ok (frames ?st1) (events ?st1)" by simp
  moreover have "path (hd (frames ?st1)) = []"
    using hd_update_path [OF ne, of ?f ?k] rt ne by (simp add: last_conv_nth)
  ultimately have "wf_state ?st1" using ne pd by (simp add: wf_state_def)
  with e show ?thesis by auto
qed

lemma mark_revert_wf:
  assumes "wf_state st"
  shows "\<exists>st1. mark_revert opc st = Inr st1 \<and> wf_state st1 \<and> events st1 = events st"
proof (cases "opc = ''REVERT''")
  case False
  with assms show ?thesis by (simp add: mark_revert_def)
next
  case True
  let ?k = "length (frames st) - 1"
  let ?f = "(last (frames st))\<lparr>reverted := True\<rparr>"
  let ?st1 = "st\<lparr>frames := (frames st)[?k := ?f]\<rparr>"
  from assms have ne: "frames st \<noteq> []" and ok: "idx_ok (frames st) (events st)"
    and rt: "path (hd (frames st)) = []"
    and pd: "\<forall>p i. pending st = Some (p, i) \<longrightarrow> p < length (frames st)" by (auto simp: wf_state_def)
  have e: "mark_revert opc st = Inr ?st1" using True ne by (simp add: mark_revert_def)
  have "\<forall>i \<in> set (logsIdx ?f). i < length (events st)"
    using idx_ok_last [OF ok ne] by simp
  from idx_ok_update [OF ok this] have "idx_ok (frames ?st1) (events ?st1)" by simp
  moreover have "path (hd (frames ?st1)) = []"
    using hd_update_path [OF ne, of ?f ?k] rt ne by (simp add: last_conv_nth)
  ultimately have "wf_state ?st1" using ne pd by (simp add: wf_state_def)
  with e show ?thesis by auto
qed

lemma step_effects_wf:
  assumes "wf_state st"
  shows "\<exists>st'. step_effects s st = Inr st' \<and> wf_state st'"
proof -
  from enter_call_wf [OF assms] obtain st1 where 1: "enter_call (op s) st = Inr st1" "wf_state st1" by blast
  from capture_log_wf [OF 1(2)] obtain st2 where 2: "capture_log s st1 = Inr st2" "wf_state st2" by blast
  from mark_revert_wf [OF 2(2)] obtain st3 where 3: "mark_revert (op s) st2 = Inr st3" "wf_state st3" by blast
  have "wf_state (st3\<lparr>prevDepth := depth s\<rparr>)" using 3(2) by (simp add: wf_state_def)
  with 1 2 3 show ?thesis by (simp add: step_effects_def)
qed

lemma process_step_wf:
  assumes "wf_state st" "1 \<le> depth s"
  shows "\<exists>st'. process_step st s = Some (Inr st') \<and> wf_state st'"
proof -
  from unwind_wf [OF assms] obtain st1 where u: "unwind s st = Some (Inr st1)" "wf_state st1" by blast
  from step_effects_wf [OF u(2)] obtain st' where "step_effects s st1 = Inr st'" "wf_state st'" by blast
  with u show ?thesis by (simp add: process_step_def)
qed

lemma run_steps_wf:
  "wf_state st \<Longrightarrow> \<forall>s \<in> set steps. 1 \<le> depth s \<Longrightarrow>
   \<exists>st'. run_steps st steps = Some (Inr st') \<and> wf_state st'"
proof (induction steps arbitrary: st)
  case Nil
  then show ?case by simp
next
  case (Cons s steps)
  from process_step_wf [OF Cons.prems(1)] Cons.prems(2) obtain st1 where
    "process_step st s = Some (Inr st1)" "wf_state st1" by auto
  with Cons.IH [of st1] Cons.prems(2) show ?case by auto
qed

lemma wf_init: "wf_state (init_state steps)"
  by (simp add: wf_state_def init_state_def idx_ok_def)


lemma finalize_cores:
  "map (\<lambda>e. (ep_op e, ep_pc e, ep_depth e, callPath e)) (finalize c evs) =
   map (\<lambda>e. (ev_op e, ev_pc e, ev_depth e, ev_callPath e)) (filter (\<lambda>e. \<not> dropped e) evs)"
  by (induction evs arbitrary: c) (simp_all add: Let_def)

lemma finalize_idx:
  "i < length (finalize c evs) \<Longrightarrow>
   eventIdxInCall (finalize c evs ! i) =
     (case c (path_key (callPath (finalize c evs ! i))) of None \<Rightarrow> 0 | Some n \<Rightarrow> n) +
     length (filter (\<lambda>e. callPath e = callPath (finalize c evs ! i)) (take i (finalize c evs)))"
proof (induction evs arbitrary: c i)
  case Nil
  then show ?case by simp
next
  case (Cons e es)
  show ?case
  proof (cases "dropped e")
    case True
    with Cons show ?thesis by simp
  next
    case False
    let ?key = "path_key (ev_callPath e)"
    let ?n = "case c ?key of None \<Rightarrow> 0 | Some k \<Rightarrow> k"
    let ?r = "\<lparr>ep_op = ev_op e, ep_pc = ev_pc e, ep_depth = ev_depth e,
               callPath = ev_callPath e, eventIdxInCall = ?n\<rparr>"
    let ?c' = "c(?key \<mapsto> ?n + 1)"
    have out: "finalize c (e # es) = ?r # finalize ?c' es" using False by (simp add: Let_def)
    show ?thesis
    proof (cases i)
      case 0
      then show ?thesis by (simp add: out del: finalize.simps)
    next
      case (Suc k)
      with Cons.prems out have k: "k < length (finalize ?c' es)" by simp
      let ?x = "finalize ?c' es ! k"
      have ih: "eventIdxInCall ?x =
        (case ?c' (path_key (callPath ?x)) of None \<Rightarrow> 0 | Some n \<Rightarrow> n) +
        length (filter (\<lambda>e. callPath e = callPath ?x) (take k (finalize ?c' es)))"
        by (rule Cons.IH [OF k])
      have keq: "(path_key (callPath ?x) = ?key) = (callPath ?x = ev_callPath e)"
        using path_key_inj by auto
      show ?thesis
      proof (cases "callPath ?x = ev_callPath e")
        case True
        with ih keq show ?thesis by (simp add: out Suc del: finalize.simps)
      next
        case False
        with ih keq show ?thesis by (simp add: out Suc del: finalize.simps)
      qed
    qed
  qed
qed

lemma finalize_idx_empty:
  "i < length (finalize Map.empty evs) \<Longrightarrow>
   eventIdxInCall (finalize Map.empty evs ! i) =
     length (filter (\<lambda>e. callPath e = callPath (finalize Map.empty evs ! i)) (take i (finalize Map.empty evs)))"
  using finalize_idx [of i Map.empty evs] by simp

lemma count_take_mono:
  assumes "i < j" "j \<le> length xs" "P (xs ! i)"
  shows "length (filter P (take i xs)) < length (filter P (take j xs))"
proof -
  have "take j xs = take i xs @ (xs ! i) # drop (Suc i) (take j xs)"
    using assms(1,2) by (metis Cons_nth_drop_Suc append_take_drop_id drop_take length_take min.absorb2 nth_take take_take min.strict_order_iff order_less_le_trans less_or_eq_imp_le)
  then have "filter P (take j xs) = filter P (take i xs) @ (xs ! i) # filter P (drop (Suc i) (take j xs))"
    using assms(3) by (metis filter.simps(2) filter_append)
  then show ?thesis by simp
qed





lemma last_update_last: "fs \<noteq> [] \<Longrightarrow> last (fs[length fs - 1 := f]) = f"
  by (simp add: last_conv_nth)













lemma set_logs_sel [simp]:
  "node_method (set_logs v n) = node_method n" "node_type (set_logs v n) = node_type n"
  "node_from (set_logs v n) = node_from n" "node_to (set_logs v n) = node_to n"
  "node_input (set_logs v n) = node_input n" "node_calls (set_logs v n) = node_calls n"
  "node_logs (set_logs v n) = v" "node_path (set_logs v n) = node_path n"
  by (simp_all add: set_logs_def)

lemma set_calls_sel [simp]:
  "node_method (set_calls v n) = node_method n" "node_type (set_calls v n) = node_type n"
  "node_from (set_calls v n) = node_from n" "node_to (set_calls v n) = node_to n"
  "node_input (set_calls v n) = node_input n" "node_calls (set_calls v n) = v"
  "node_logs (set_calls v n) = node_logs n" "node_path (set_calls v n) = node_path n"
  by (simp_all add: set_calls_def)

lemma kids_set_calls [simp]: "kids (set_calls (Some ks) n) = ks"
  by (simp add: kids_def)

lemma kids_calls_eq: "node_calls m = node_calls n \<Longrightarrow> kids m = kids n"
  by (simp add: kids_def)

text \<open>What an update at position \<open>p\<close> does to the node at position \<open>q\<close>.\<close>

lemma node_at_update_at:
  assumes f: "\<And>m. node_calls (f m) = node_calls m"
  shows "node_at q (update_at p f n) =
         map_option (\<lambda>m. if take (length q) p = q then update_at (drop (length q) p) f m else m)
                    (node_at q n)"
proof (induction q arbitrary: p n)
  case Nil
  then show ?case by simp
next
  case (Cons i q)
  show ?case
  proof (cases p)
    case Nil
    then show ?thesis using kids_calls_eq [OF f, of n] by (simp add: option.map_ident)
  next
    case (Cons j p')
    show ?thesis
    proof (cases "node_calls n")
      case None
      then show ?thesis using Cons by (simp add: kids_def)
    next
      case (Some ks)
      then have k: "kids n = ks" by (simp add: kids_def)
      show ?thesis
      proof (cases "j < length ks")
        case False
        with Some Cons k show ?thesis by (auto simp: option.map_ident)
      next
        case True
        with Some Cons k Cons.IH [of p' "ks ! j"] show ?thesis
          by (auto simp: nth_list_update option.map_ident cong: if_cong)
      qed
    qed
  qed
qed

lemma update_at_shallow:
  "r \<noteq> [] \<Longrightarrow> node_type (update_at r f m) = node_type m \<and> node_from (update_at r f m) = node_from m \<and>
     node_to (update_at r f m) = node_to m \<and> node_logs (update_at r f m) = node_logs m"
  by (cases r) (auto split: option.splits)

lemma take_eq_drop_Nil: "take (length q) p = q \<Longrightarrow> drop (length q) p = [] \<Longrightarrow> p = q"
  by (metis append_take_drop_id append_Nil2)

lemma node_at_update_fields:
  assumes f: "\<And>m. node_calls (f m) = node_calls m" and q: "node_at q n = Some m"
  shows "\<exists>m'. node_at q (update_at p f n) = Some m' \<and>
           (if q = p then m' = f m
            else node_type m' = node_type m \<and> node_from m' = node_from m \<and>
                 node_to m' = node_to m \<and> node_logs m' = node_logs m)"
proof (cases "take (length q) p = q")
  case False
  then have "q \<noteq> p" by auto
  with False node_at_update_at [of f q p n, OF f] q show ?thesis by simp
next
  case True
  show ?thesis
  proof (cases "drop (length q) p = []")
    case dn: True
    with True have "p = q" by (rule take_eq_drop_Nil)
    with node_at_update_at [of f q p n, OF f] q show ?thesis by simp
  next
    case False
    then have "q \<noteq> p" by auto
    with True False node_at_update_at [of f q p n, OF f] q update_at_shallow [OF False, of f m]
    show ?thesis by simp
  qed
qed

lemma node_at_update_None:
  assumes f: "\<And>m. node_calls (f m) = node_calls m"
  shows "node_at q (update_at p f n) = None \<longleftrightarrow> node_at q n = None"
  using node_at_update_at [of f q p n, OF f] by simp

lemma root_node_at_update_fields:
  assumes f: "\<And>m. node_calls (f m) = node_calls m" and q: "root_node_at r q = Some m"
  shows "\<exists>m'. root_node_at (root_update_at p f r) q = Some m' \<and>
           (if q = p then m' = f m
            else node_type m' = node_type m \<and> node_from m' = node_from m \<and>
                 node_to m' = node_to m \<and> node_logs m' = node_logs m)"
proof (cases r)
  case (Single n)
  with q node_at_update_fields [of f q n m p, OF f] show ?thesis by simp
next
  case (Many ns)
  show ?thesis
  proof (cases q)
    case Nil
    with Many q show ?thesis by simp
  next
    case qc: (Cons i q')
    with Many q have i: "i < length ns" and qn: "node_at q' (ns ! i) = Some m"
      by (auto split: if_splits)
    show ?thesis
    proof (cases p)
      case Nil
      with Many qc i qn show ?thesis by simp
    next
      case (Cons j p')
      show ?thesis
      proof (cases "i = j")
        case True
        with Many qc Cons i qn node_at_update_fields [of f q' "ns ! i" m p', OF f] show ?thesis
          by simp
      next
        case False
        with Many qc Cons i qn show ?thesis by simp
      qed
    qed
  qed
qed

lemma root_node_at_update_None:
  assumes f: "\<And>m. node_calls (f m) = node_calls m"
  shows "root_node_at (root_update_at p f r) q = None \<longleftrightarrow> root_node_at r q = None"
proof (cases r)
  case (Single n)
  then show ?thesis using node_at_update_None [of f q p n, OF f] by simp
next
  case (Many ns)
  show ?thesis
  proof (cases q)
    case Nil
    with Many show ?thesis by (cases p) simp_all
  next
    case qc: (Cons i q')
    show ?thesis
    proof (cases p)
      case Nil
      with Many qc show ?thesis by simp
    next
      case (Cons j p')
      with Many qc node_at_update_None [of f q' p' "ns ! i", OF f] show ?thesis
        by (auto simp: nth_list_update)
    qed
  qed
qed

lemma node_at_exists_iff:
  "node_at q n \<noteq> None \<longleftrightarrow>
     q = [] \<or> (\<exists>j q'. q = j # q' \<and> j < length (kids n) \<and> node_at q' (kids n ! j) \<noteq> None)"
  by (cases q) auto

lemma map_of_update_key:
  "map_of (AList.update (path_key p) p pm) (path_key x) = (if x = p then Some x else map_of pm (path_key x))"
  using path_key_inj by (auto simp: update_conv')

lemma visit_maps:
  fixes n :: "'l CallNode" and ks :: "'l CallNode list"
  shows visit_map: "\<forall>x. map_of (snd (visit n prefix pm)) (path_key x) =
         (if \<exists>q. x = prefix @ q \<and> node_at q n \<noteq> None then Some x else map_of pm (path_key x))"
  and visit_kids_map:
  "\<forall>x. map_of (snd (visit_kids ks i prefix pm)) (path_key x) =
         (if \<exists>j q. j < length ks \<and> x = prefix @ (i + j) # q \<and> node_at q (ks ! j) \<noteq> None
          then Some x else map_of pm (path_key x))"
proof (induction n prefix pm and ks i prefix pm rule: visit_visit_kids.induct)
  case (1 m t f to inp cs ls pth prefix pm)
  let ?n = "CallNode m t f to inp cs ls pth"
  let ?pm1 = "AList.update (path_key prefix) prefix pm"
  show ?case
  proof (cases cs)
    case None
    then have "\<And>q. node_at q ?n \<noteq> None \<longleftrightarrow> q = []"
      using node_at_exists_iff [of _ ?n] by (simp add: kids_def)
    then have "\<And>x. (\<exists>q. x = prefix @ q \<and> node_at q ?n \<noteq> None) \<longleftrightarrow> x = prefix" by auto
    with None show ?thesis by (simp add: map_of_update_key)
  next
    case (Some ks)
    have k: "kids ?n = ks" using Some by (simp add: kids_def)
    have ih: "\<forall>x. map_of (snd (visit_kids ks 0 prefix ?pm1)) (path_key x) =
         (if \<exists>j q. j < length ks \<and> x = prefix @ (0 + j) # q \<and> node_at q (ks ! j) \<noteq> None
          then Some x else map_of ?pm1 (path_key x))"
      using 1 [OF refl Some] .
    have ex: "\<And>x. (\<exists>q. x = prefix @ q \<and> node_at q ?n \<noteq> None) \<longleftrightarrow>
                x = prefix \<or> (\<exists>j q. j < length ks \<and> x = prefix @ j # q \<and> node_at q (ks ! j) \<noteq> None)"
    proof -
      fix x
      show "(\<exists>q. x = prefix @ q \<and> node_at q ?n \<noteq> None) \<longleftrightarrow>
                x = prefix \<or> (\<exists>j q. j < length ks \<and> x = prefix @ j # q \<and> node_at q (ks ! j) \<noteq> None)"
        (is "?L \<longleftrightarrow> ?R")
      proof
        assume ?L
        then obtain q where q: "x = prefix @ q" "node_at q ?n \<noteq> None" by blast
        from q(2) node_at_exists_iff [of q ?n] k
        have "q = [] \<or> (\<exists>j q'. q = j # q' \<and> j < length ks \<and> node_at q' (ks ! j) \<noteq> None)" by simp
        with q(1) show ?R by auto
      next
        assume ?R
        then show ?L
        proof
          assume "x = prefix"
          then have "x = prefix @ [] \<and> node_at [] ?n \<noteq> None" by simp
          then show ?L by blast
        next
          assume "\<exists>j q. j < length ks \<and> x = prefix @ j # q \<and> node_at q (ks ! j) \<noteq> None"
          then obtain j q where "j < length ks" "x = prefix @ j # q" "node_at q (ks ! j) \<noteq> None" by blast
          then have "x = prefix @ (j # q) \<and> node_at (j # q) ?n \<noteq> None" using k by simp
          then show ?L by blast
        qed
      qed
    qed
    have s: "snd (visit ?n prefix pm) = snd (visit_kids ks 0 prefix ?pm1)"
      using Some by (simp add: Let_def split: prod.splits)
    show ?thesis
    proof
      fix x
      show "map_of (snd (visit ?n prefix pm)) (path_key x) =
         (if \<exists>q. x = prefix @ q \<and> node_at q ?n \<noteq> None then Some x else map_of pm (path_key x))"
      proof (cases "\<exists>j q. j < length ks \<and> x = prefix @ j # q \<and> node_at q (ks ! j) \<noteq> None")
        case True
        then have c: "\<exists>j q. j < length ks \<and> x = prefix @ (0 + j) # q \<and> node_at q (ks ! j) \<noteq> None"
          by simp
        have "map_of (snd (visit_kids ks 0 prefix ?pm1)) (path_key x) = Some x"
          using ih [rule_format, of x] by (simp only: if_P [OF c])
        moreover have "x = prefix \<or> (\<exists>j q. j < length ks \<and> x = prefix @ j # q \<and> node_at q (ks ! j) \<noteq> None)"
          using True by blast
        ultimately show ?thesis unfolding s ex by (simp only: if_P if_True)
      next
        case False
        then have c: "\<not> (\<exists>j q. j < length ks \<and> x = prefix @ (0 + j) # q \<and> node_at q (ks ! j) \<noteq> None)"
          by simp
        have e: "map_of (snd (visit_kids ks 0 prefix ?pm1)) (path_key x) = map_of ?pm1 (path_key x)"
          using ih [rule_format, of x] by (simp only: if_not_P [OF c])
        show ?thesis
        proof (cases "x = prefix")
          case True
          then have "x = prefix \<or> (\<exists>j q. j < length ks \<and> x = prefix @ j # q \<and> node_at q (ks ! j) \<noteq> None)"
            by blast
          then show ?thesis unfolding s ex e using True by (simp only: if_P map_of_update_key)
        next
          case nx: False
          with False have "\<not> (x = prefix \<or> (\<exists>j q. j < length ks \<and> x = prefix @ j # q \<and> node_at q (ks ! j) \<noteq> None))"
            by blast
          then show ?thesis unfolding s ex e using nx by (simp only: if_not_P map_of_update_key)
        qed
      qed
    qed
  qed
next
  case (2 i prefix pm)
  then show ?case by simp
next
  case (3 k ks i prefix pm)
  obtain k' pm1 where v: "visit k (prefix @ [i]) pm = (k', pm1)" by (cases "visit k (prefix @ [i]) pm")
  have ih1: "\<forall>x. map_of pm1 (path_key x) =
         (if \<exists>q. x = (prefix @ [i]) @ q \<and> node_at q k \<noteq> None then Some x else map_of pm (path_key x))"
    using 3(1) v by simp
  have ih2: "\<forall>x. map_of (snd (visit_kids ks (i + 1) prefix pm1)) (path_key x) =
         (if \<exists>j q. j < length ks \<and> x = prefix @ (i + 1 + j) # q \<and> node_at q (ks ! j) \<noteq> None
          then Some x else map_of pm1 (path_key x))"
    using 3(2) [OF v [symmetric]] .
  have s: "snd (visit_kids (k # ks) i prefix pm) = snd (visit_kids ks (i + 1) prefix pm1)"
    using v by (simp split: prod.splits)
  have ex: "\<And>x. (\<exists>j q. j < length (k # ks) \<and> x = prefix @ (i + j) # q \<and> node_at q ((k # ks) ! j) \<noteq> None) \<longleftrightarrow>
              (\<exists>q. x = (prefix @ [i]) @ q \<and> node_at q k \<noteq> None) \<or>
              (\<exists>j q. j < length ks \<and> x = prefix @ (i + 1 + j) # q \<and> node_at q (ks ! j) \<noteq> None)"
  proof -
    fix x
    show "(\<exists>j q. j < length (k # ks) \<and> x = prefix @ (i + j) # q \<and> node_at q ((k # ks) ! j) \<noteq> None) \<longleftrightarrow>
              (\<exists>q. x = (prefix @ [i]) @ q \<and> node_at q k \<noteq> None) \<or>
              (\<exists>j q. j < length ks \<and> x = prefix @ (i + 1 + j) # q \<and> node_at q (ks ! j) \<noteq> None)"
      (is "?L \<longleftrightarrow> ?R")
    proof
      assume ?L
      then obtain j q where j: "j < length (k # ks)" "x = prefix @ (i + j) # q" "node_at q ((k # ks) ! j) \<noteq> None"
        by blast
      show ?R
      proof (cases j)
        case 0
        with j show ?thesis by auto
      next
        case (Suc j')
        with j have "j' < length ks \<and> x = prefix @ (i + 1 + j') # q \<and> node_at q (ks ! j') \<noteq> None" by simp
        then show ?thesis by blast
      qed
    next
      assume ?R
      then show ?L
      proof
        assume "\<exists>q. x = (prefix @ [i]) @ q \<and> node_at q k \<noteq> None"
        then obtain q where "x = (prefix @ [i]) @ q" "node_at q k \<noteq> None" by blast
        then have "0 < length (k # ks) \<and> x = prefix @ (i + 0) # q \<and> node_at q ((k # ks) ! 0) \<noteq> None" by simp
        then show ?L by blast
      next
        assume "\<exists>j q. j < length ks \<and> x = prefix @ (i + 1 + j) # q \<and> node_at q (ks ! j) \<noteq> None"
        then obtain j q where "j < length ks" "x = prefix @ (i + 1 + j) # q" "node_at q (ks ! j) \<noteq> None" by blast
        then have "Suc j < length (k # ks) \<and> x = prefix @ (i + Suc j) # q \<and> node_at q ((k # ks) ! Suc j) \<noteq> None"
          by simp
        then show ?L by blast
      qed
    qed
  qed
  show ?case
  proof
    fix x
    show "map_of (snd (visit_kids (k # ks) i prefix pm)) (path_key x) =
         (if \<exists>j q. j < length (k # ks) \<and> x = prefix @ (i + j) # q \<and> node_at q ((k # ks) ! j) \<noteq> None
          then Some x else map_of pm (path_key x))"
    proof (cases "\<exists>j q. j < length ks \<and> x = prefix @ (i + 1 + j) # q \<and> node_at q (ks ! j) \<noteq> None")
      case True
      have "map_of (snd (visit_kids ks (i + 1) prefix pm1)) (path_key x) = Some x"
        using ih2 [rule_format, of x] by (simp only: if_P [OF True])
      moreover have "(\<exists>q. x = (prefix @ [i]) @ q \<and> node_at q k \<noteq> None) \<or>
              (\<exists>j q. j < length ks \<and> x = prefix @ (i + 1 + j) # q \<and> node_at q (ks ! j) \<noteq> None)"
        using True by blast
      ultimately show ?thesis unfolding s ex by (simp only: if_P if_True)
    next
      case False
      have e: "map_of (snd (visit_kids ks (i + 1) prefix pm1)) (path_key x) = map_of pm1 (path_key x)"
        using ih2 [rule_format, of x] by (simp only: if_not_P [OF False])
      show ?thesis
      proof (cases "\<exists>q. x = (prefix @ [i]) @ q \<and> node_at q k \<noteq> None")
        case True
        have "map_of pm1 (path_key x) = Some x"
          using ih1 [rule_format, of x] by (simp only: if_P [OF True])
        moreover have "(\<exists>q. x = (prefix @ [i]) @ q \<and> node_at q k \<noteq> None) \<or>
              (\<exists>j q. j < length ks \<and> x = prefix @ (i + 1 + j) # q \<and> node_at q (ks ! j) \<noteq> None)"
          using True by blast
        ultimately show ?thesis unfolding s ex e by (simp only: if_P if_True)
      next
        case nk: False
        have "map_of pm1 (path_key x) = map_of pm (path_key x)"
          using ih1 [rule_format, of x] by (simp only: if_not_P [OF nk])
        moreover have "\<not> ((\<exists>q. x = (prefix @ [i]) @ q \<and> node_at q k \<noteq> None) \<or>
              (\<exists>j q. j < length ks \<and> x = prefix @ (i + 1 + j) # q \<and> node_at q (ks ! j) \<noteq> None))"
          using nk False by blast
        ultimately show ?thesis unfolding s ex e by (simp only: if_not_P if_False)
      qed
    qed
  qed
qed

lemma visited_node:
  assumes "node_fields n' = node_fields n" "node_path n' = Some prefix"
    and "length (kids n') = length (kids n)"
    and "\<forall>j < length (kids n). visited (prefix @ [j]) (kids n ! j) (kids n' ! j)"
  shows "visited prefix n n'"
  unfolding visited_def
proof
  fix q
  show "(node_at q n = None \<longrightarrow> node_at q n' = None) \<and>
          (\<forall>m. node_at q n = Some m \<longrightarrow>
               (\<exists>m'. node_at q n' = Some m' \<and> node_fields m' = node_fields m \<and>
                     node_path m' = Some (prefix @ q)))"
  proof (cases q)
    case Nil
    with assms(1,2) show ?thesis by simp
  next
    case (Cons j q')
    show ?thesis
    proof (cases "j < length (kids n)")
      case False
      with Cons assms(3) show ?thesis by simp
    next
      case True
      with assms(4) have "visited (prefix @ [j]) (kids n ! j) (kids n' ! j)" by simp
      then have "(node_at q' (kids n ! j) = None \<longrightarrow> node_at q' (kids n' ! j) = None) \<and>
          (\<forall>m. node_at q' (kids n ! j) = Some m \<longrightarrow>
               (\<exists>m'. node_at q' (kids n' ! j) = Some m' \<and> node_fields m' = node_fields m \<and>
                     node_path m' = Some ((prefix @ [j]) @ q')))"
        unfolding visited_def by blast
      with True Cons assms(3) show ?thesis by simp
    qed
  qed
qed

lemma visit_all_nodes:
  fixes n :: "'l CallNode" and ks :: "'l CallNode list"
  shows visit_nodes: "visited prefix n (fst (visit n prefix pm))"
  and visit_kids_nodes: "length (fst (visit_kids ks i prefix pm)) = length ks \<and>
       (\<forall>j < length ks. visited (prefix @ [i + j]) (ks ! j) (fst (visit_kids ks i prefix pm) ! j))"
proof (induction n prefix pm and ks i prefix pm rule: visit_visit_kids.induct)
  case (1 m t f to inp cs ls pth prefix pm)
  let ?n = "CallNode m t f to inp cs ls pth"
  let ?pm1 = "AList.update (path_key prefix) prefix pm"
  show ?case
  proof (cases cs)
    case None
    then have "fst (visit ?n prefix pm) = CallNode m t f to inp None ls (Some prefix)" by simp
    with None show ?thesis
      by (intro visited_node) (simp_all add: node_fields_def kids_def)
  next
    case (Some ks)
    obtain ks' pm2 where v: "visit_kids ks 0 prefix ?pm1 = (ks', pm2)"
      by (cases "visit_kids ks 0 prefix ?pm1")
    from 1 [OF refl Some] v have ih: "length ks' = length ks"
      "\<forall>j < length ks. visited (prefix @ [j]) (ks ! j) (ks' ! j)" by simp_all
    have "fst (visit ?n prefix pm) = CallNode m t f to inp (Some ks') ls (Some prefix)"
      using Some v by simp
    with Some ih show ?thesis
      by (intro visited_node) (simp_all add: node_fields_def kids_def)
  qed
next
  case (2 i prefix pm)
  then show ?case by simp
next
  case (3 k ks i prefix pm)
  obtain k' pm1 where v: "visit k (prefix @ [i]) pm = (k', pm1)" by (cases "visit k (prefix @ [i]) pm")
  obtain ks' pm2 where vk: "visit_kids ks (i + 1) prefix pm1 = (ks', pm2)"
    by (cases "visit_kids ks (i + 1) prefix pm1")
  have ih1: "visited (prefix @ [i]) k k'" using 3(1) v by simp
  have ih2: "length ks' = length ks"
    "\<forall>j < length ks. visited (prefix @ [i + 1 + j]) (ks ! j) (ks' ! j)"
    using 3(2) [OF v [symmetric]] vk by simp_all
  have f: "fst (visit_kids (k # ks) i prefix pm) = k' # ks'" using v vk by simp
  have "\<forall>j < length (k # ks). visited (prefix @ [i + j]) ((k # ks) ! j) ((k' # ks') ! j)"
  proof (intro allI impI)
    fix j assume "j < length (k # ks)"
    then show "visited (prefix @ [i + j]) ((k # ks) ! j) ((k' # ks') ! j)"
      using ih1 ih2 by (cases j) simp_all
  qed
  with f ih2(1) show ?case by simp
qed

lemma annotate_map:
  "map_of (snd (annotateCallPaths c)) (path_key x) = (if root_node_at c x \<noteq> None then Some x else None)"
proof (cases c)
  case (Single n)
  have "snd (annotateCallPaths c) = snd (visit n [] [])" using Single by (simp split: prod.splits)
  with visit_map [where n = n and prefix = "[]" and pm = "[]"] Single show ?thesis by simp
next
  case (Many ns)
  have s: "snd (annotateCallPaths c) = snd (visit_kids ns 0 [] [])" using Many by (simp split: prod.splits)
  have "(\<exists>j q. j < length ns \<and> x = [] @ (0 + j) # q \<and> node_at q (ns ! j) \<noteq> None) \<longleftrightarrow>
        root_node_at c x \<noteq> None"
    using Many by (cases x) auto
  with visit_kids_map [where ks = ns and i = 0 and prefix = "[]" and pm = "[]", rule_format, of x]
  show ?thesis unfolding s by simp
qed

lemma annotate_nodes: "annotated c (fst (annotateCallPaths c))"
proof (cases c)
  case (Single n)
  have "fst (annotateCallPaths c) = Single (fst (visit n [] []))" using Single by (simp split: prod.splits)
  with visit_nodes [where n = n and prefix = "[]" and pm = "[]"] Single show ?thesis
    by (simp add: annotated_def visited_def)
next
  case (Many ns)
  have f: "fst (annotateCallPaths c) = Many (fst (visit_kids ns 0 [] []))"
    using Many by (simp split: prod.splits)
  from visit_kids_nodes [where ks = ns and i = 0 and prefix = "[]" and pm = "[]"]
  have l: "length (fst (visit_kids ns 0 [] [])) = length ns"
    and v: "\<forall>j < length ns. visited [j] (ns ! j) (fst (visit_kids ns 0 [] []) ! j)" by simp_all
  show ?thesis unfolding annotated_def
  proof
    fix q
    show "(root_node_at c q = None \<longrightarrow> root_node_at (fst (annotateCallPaths c)) q = None) \<and>
          (\<forall>m. root_node_at c q = Some m \<longrightarrow>
               (\<exists>m'. root_node_at (fst (annotateCallPaths c)) q = Some m' \<and>
                     node_fields m' = node_fields m \<and> node_path m' = Some q))"
    proof (cases q)
      case Nil
      with Many f show ?thesis by simp
    next
      case (Cons j q')
      show ?thesis
      proof (cases "j < length ns")
        case False
        with Cons Many f l show ?thesis by simp
      next
        case True
        with v have "visited [j] (ns ! j) (fst (visit_kids ns 0 [] []) ! j)" by simp
        then have "(node_at q' (ns ! j) = None \<longrightarrow> node_at q' (fst (visit_kids ns 0 [] []) ! j) = None) \<and>
          (\<forall>m. node_at q' (ns ! j) = Some m \<longrightarrow>
               (\<exists>m'. node_at q' (fst (visit_kids ns 0 [] []) ! j) = Some m' \<and>
                     node_fields m' = node_fields m \<and> node_path m' = Some ([j] @ q')))"
          unfolding visited_def by blast
        with True Cons Many f l show ?thesis by simp
      qed
    qed
  qed
qed

lemma set_logs_calls: "node_calls (set_logs v m) = node_calls m"
  by simp

lemma init_fold:
  "(\<forall>q. (root_node_at r q = None \<longrightarrow>
          root_node_at (fold (\<lambda>(key, pos) r'. root_update_at pos (set_logs (Some [])) r') es r) q = None) \<and>
        (\<forall>m. root_node_at r q = Some m \<longrightarrow>
          (\<exists>m'. root_node_at (fold (\<lambda>(key, pos) r'. root_update_at pos (set_logs (Some [])) r') es r) q = Some m' \<and>
                node_type m' = node_type m \<and> node_from m' = node_from m \<and> node_to m' = node_to m \<and>
                node_logs m' = (if q \<in> snd ` set es then Some [] else node_logs m))))"
proof (induction es arbitrary: r)
  case Nil
  then show ?case by simp
next
  case (Cons a es)
  obtain k pos where a: "a = (k, pos)" by (cases a)
  let ?r1 = "root_update_at pos (set_logs (Some [])) r"
  let ?F = "fold (\<lambda>(key, pos) r'. root_update_at pos (set_logs (Some [])) r') es"
  have fold_eq: "fold (\<lambda>(key, pos) r'. root_update_at pos (set_logs (Some [])) r') (a # es) r = ?F ?r1"
    using a by simp
  show ?case unfolding fold_eq
  proof (intro allI conjI impI)
    fix q assume "root_node_at r q = None"
    then have "root_node_at ?r1 q = None"
      using root_node_at_update_None [of "set_logs (Some [])" pos r q] by simp
    with Cons.IH [of ?r1] show "root_node_at (?F ?r1) q = None" by blast
  next
    fix q m assume m: "root_node_at r q = Some m"
    from root_node_at_update_fields [of "set_logs (Some [])" r q m pos, OF set_logs_calls m]
    obtain m1 where m1: "root_node_at ?r1 q = Some m1"
      and f1: "if q = pos then m1 = set_logs (Some []) m
               else node_type m1 = node_type m \<and> node_from m1 = node_from m \<and>
                    node_to m1 = node_to m \<and> node_logs m1 = node_logs m" by blast
    from Cons.IH [of ?r1] m1 obtain m' where
      m': "root_node_at (?F ?r1) q = Some m'" "node_type m' = node_type m1"
      "node_from m' = node_from m1" "node_to m' = node_to m1"
      "node_logs m' = (if q \<in> snd ` set es then Some [] else node_logs m1)" by blast
    have "node_type m1 = node_type m \<and> node_from m1 = node_from m \<and> node_to m1 = node_to m"
      using f1 by (cases "q = pos") simp_all
    moreover have "node_logs m' = (if q \<in> snd ` set (a # es) then Some [] else node_logs m)"
      using f1 m'(5) a by (cases "q = pos") auto
    ultimately show "\<exists>m'. root_node_at (?F ?r1) q = Some m' \<and>
                node_type m' = node_type m \<and> node_from m' = node_from m \<and> node_to m' = node_to m \<and>
                node_logs m' = (if q \<in> snd ` set (a # es) then Some [] else node_logs m)"
      using m' by auto
  qed
qed

lemma init_logs_holds:
  "holds_logs c (init_logs (snd (annotateCallPaths c)) (fst (annotateCallPaths c))) (\<lambda>q. [])"
  unfolding holds_logs_def
proof (intro allI conjI impI)
  let ?r0 = "fst (annotateCallPaths c)" and ?pm = "snd (annotateCallPaths c)"
  fix q assume "root_node_at c q = None"
  with annotate_nodes [of c] have "root_node_at ?r0 q = None" by (simp add: annotated_def)
  with init_fold [of ?r0 ?pm] show "root_node_at (init_logs ?pm ?r0) q = None"
    by (simp add: init_logs_def)
next
  let ?r0 = "fst (annotateCallPaths c)" and ?pm = "snd (annotateCallPaths c)"
  fix q m assume m: "root_node_at c q = Some m"
  with annotate_nodes [of c] obtain m0 where
    m0: "root_node_at ?r0 q = Some m0" "node_fields m0 = node_fields m" by (auto simp: annotated_def)
  from m annotate_map [of c q] have "map_of ?pm (path_key q) = Some q" by simp
  then have "(path_key q, q) \<in> set ?pm" by (rule map_of_SomeD)
  then have inq: "q \<in> snd ` set ?pm" by force
  from init_fold [of ?r0 ?pm] m0(1) obtain m' where
    "root_node_at (init_logs ?pm ?r0) q = Some m'" "node_type m' = node_type m0"
    "node_from m' = node_from m0" "node_to m' = node_to m0"
    "node_logs m' = (if q \<in> snd ` set ?pm then Some [] else node_logs m0)"
    unfolding init_logs_def by blast
  with inq m0(2) show "\<exists>m'. root_node_at (init_logs ?pm ?r0) q = Some m' \<and> node_type m' = node_type m \<and>
                     node_from m' = node_from m \<and> node_to m' = node_to m \<and> node_logs m' = Some []"
    by (auto simp: node_fields_def)
qed

lemma expected_addr_cong:
  "node_type m' = node_type m \<Longrightarrow> node_from m' = node_from m \<Longrightarrow> node_to m' = node_to m \<Longrightarrow>
   expectedLogAddressForNode m' = expectedLogAddressForNode m"
  by (simp add: expectedLogAddressForNode_def)

lemma attach_one_holds:
  assumes "holds_logs c r A"
  shows "\<exists>r'. attach_one (snd (annotateCallPaths c)) h e lref li \<lparr>root = r, warnings = ws\<rparr> =
                 Inr \<lparr>root = r', warnings = ws @ pair_warnings c h e lref li\<rparr> \<and>
               holds_logs c r' (\<lambda>q. if q = callPath e then A q @ [lref] else A q)"
proof (cases "root_node_at c (callPath e)")
  case None
  with annotate_map [of c "callPath e"] have "map_of (snd (annotateCallPaths c)) (path_key (callPath e)) = None"
    by simp
  then have "attach_one (snd (annotateCallPaths c)) h e lref li \<lparr>root = r, warnings = ws\<rparr> =
                 Inr \<lparr>root = r, warnings = ws @ pair_warnings c h e lref li\<rparr>"
    using None by (simp add: attach_one_def pair_warnings_def Let_def)
  moreover have "holds_logs c r (\<lambda>q. if q = callPath e then A q @ [lref] else A q)"
    unfolding holds_logs_def
  proof (intro allI conjI impI)
    fix q assume "root_node_at c q = None"
    with assms show "root_node_at r q = None" by (simp add: holds_logs_def)
  next
    fix q n assume n: "root_node_at c q = Some n"
    with None have "q \<noteq> callPath e" by auto
    with assms n show "\<exists>m'. root_node_at r q = Some m' \<and> node_type m' = node_type n \<and>
                     node_from m' = node_from n \<and> node_to m' = node_to n \<and>
                     node_logs m' = Some (if q = callPath e then A q @ [lref] else A q)"
      by (simp add: holds_logs_def)
  qed
  ultimately show ?thesis by blast
next
  case (Some m)
  let ?p = "callPath e"
  from annotate_map [of c ?p] Some have pm: "map_of (snd (annotateCallPaths c)) (path_key ?p) = Some ?p"
    by simp
  from assms Some obtain m' where m': "root_node_at r ?p = Some m'" "node_type m' = node_type m"
    "node_from m' = node_from m" "node_to m' = node_to m" "node_logs m' = Some (A ?p)"
    unfolding holds_logs_def by blast
  have ex: "expectedLogAddressForNode m' = expectedLogAddressForNode m"
    using m'(2-4) by (rule expected_addr_cong)
  let ?r' = "root_update_at ?p (set_logs (Some (A ?p @ [lref]))) r"
  have a: "attach_one (snd (annotateCallPaths c)) h e lref li \<lparr>root = r, warnings = ws\<rparr> =
                 Inr \<lparr>root = ?r', warnings = ws @ pair_warnings c h e lref li\<rparr>"
    using pm m' ex Some by (simp add: attach_one_def pair_warnings_def Let_def)
  have "holds_logs c ?r' (\<lambda>q. if q = ?p then A q @ [lref] else A q)"
    unfolding holds_logs_def
  proof (intro allI conjI impI)
    fix q assume "root_node_at c q = None"
    with assms have "root_node_at r q = None" by (simp add: holds_logs_def)
    then show "root_node_at ?r' q = None"
      using root_node_at_update_None [of "set_logs (Some (A ?p @ [lref]))" ?p r q] by simp
  next
    fix q n assume "root_node_at c q = Some n"
    with assms obtain n' where n': "root_node_at r q = Some n'" "node_type n' = node_type n"
      "node_from n' = node_from n" "node_to n' = node_to n" "node_logs n' = Some (A q)"
      unfolding holds_logs_def by blast
    from root_node_at_update_fields [of "set_logs (Some (A ?p @ [lref]))" r q n' ?p, OF set_logs_calls n'(1)]
    obtain n2 where n2: "root_node_at ?r' q = Some n2"
      and f2: "if q = ?p then n2 = set_logs (Some (A ?p @ [lref])) n'
               else node_type n2 = node_type n' \<and> node_from n2 = node_from n' \<and>
                    node_to n2 = node_to n' \<and> node_logs n2 = node_logs n'" by blast
    show "\<exists>m'. root_node_at ?r' q = Some m' \<and> node_type m' = node_type n \<and>
                     node_from m' = node_from n \<and> node_to m' = node_to n \<and>
                     node_logs m' = Some (if q = ?p then A q @ [lref] else A q)"
      using n2 f2 n' by (cases "q = ?p") auto
  qed
  with a show ?thesis by blast
qed

lemma attach_loop_holds:
  "holds_logs c r A \<Longrightarrow>
   \<exists>r'. attach_loop (snd (annotateCallPaths c)) h es ls li \<lparr>root = r, warnings = ws\<rparr> =
           Inr \<lparr>root = r', warnings = ws @ loop_warnings c h es ls li\<rparr> \<and>
         holds_logs c r' (\<lambda>q. A q @ loop_attached es ls q)"
proof (induction es arbitrary: ls li r ws A)
  case Nil
  then show ?case by simp
next
  case (Cons e es)
  show ?case
  proof (cases ls)
    case Nil
    with Cons.prems show ?thesis by simp
  next
    case ls: (Cons lref lrefs)
    from attach_one_holds [OF Cons.prems, of h e lref li ws] obtain r1 where
      a: "attach_one (snd (annotateCallPaths c)) h e lref li \<lparr>root = r, warnings = ws\<rparr> =
                 Inr \<lparr>root = r1, warnings = ws @ pair_warnings c h e lref li\<rparr>"
      and h1: "holds_logs c r1 (\<lambda>q. if q = callPath e then A q @ [lref] else A q)" by blast
    from Cons.IH [OF h1, of lrefs "li + 1" "ws @ pair_warnings c h e lref li"] obtain r' where
      l: "attach_loop (snd (annotateCallPaths c)) h es lrefs (li + 1)
          \<lparr>root = r1, warnings = ws @ pair_warnings c h e lref li\<rparr> =
        Inr \<lparr>root = r', warnings = (ws @ pair_warnings c h e lref li) @ loop_warnings c h es lrefs (li + 1)\<rparr>"
      and h2: "holds_logs c r' (\<lambda>q. (if q = callPath e then A q @ [lref] else A q) @ loop_attached es lrefs q)"
      by blast
    have "(\<lambda>q. (if q = callPath e then A q @ [lref] else A q) @ loop_attached es lrefs q) =
        (\<lambda>q. A q @ loop_attached (e # es) (lref # lrefs) q)" by auto
    with h2 have "holds_logs c r' (\<lambda>q. A q @ loop_attached (e # es) (lref # lrefs) q)" by simp
    with a l ls show ?thesis by simp
  qed
qed

lemma upt_Suc_shift: "[0 ..< Suc n] = 0 # map Suc [0 ..< n]"
  by (simp add: upt_conv_Cons map_Suc_upt del: upt_Suc)

lemma loop_warnings_index:
  "loop_warnings c h es ls li =
     concat (map (\<lambda>i. pair_warnings c h (es ! i) (ls ! i) (li + i)) [0 ..< min (length es) (length ls)])"
proof (induction es arbitrary: ls li)
  case Nil
  then show ?case by simp
next
  case (Cons e es)
  show ?case
  proof (cases ls)
    case Nil
    then show ?thesis by simp
  next
    case (Cons l ls')
    have "min (length (e # es)) (length (l # ls')) = Suc (min (length es) (length ls'))" by simp
    then show ?thesis using Cons Cons.IH [of ls' "li + 1"]
      by (simp add: upt_Suc_shift comp_def del: upt_Suc)
  qed
qed

lemma loop_attached_index: "loop_attached es ls q = attached_at es ls q"
proof (induction es arbitrary: ls)
  case Nil
  then show ?case by (simp add: attached_at_def)
next
  case (Cons e es)
  show ?case
  proof (cases ls)
    case Nil
    then show ?thesis by (simp add: attached_at_def)
  next
    case (Cons l ls')
    have "min (length (e # es)) (length (l # ls')) = Suc (min (length es) (length ls'))" by simp
    then show ?thesis using Cons Cons.IH [of ls']
      by (simp add: attached_at_def upt_Suc_shift filter_map comp_def del: upt_Suc)
  qed
qed

lemma stitch_events_char:
  "\<exists>r. holds_logs c r (attached_at evs (logs receipt)) \<and>
     (\<forall>suppress. stitch_events c evs receipt suppress h =
        (if stitch_warnings c h evs (logs receipt) \<noteq> [] \<and> \<not> suppress
         then Inl (AggregatedWarnings
                (''Warnings during stitchLogsIntoCallTrace:'' @ newline @
                 join (stitch_warnings c h evs (logs receipt)) newline))
         else Inr (\<lparr>root = r, warnings = stitch_warnings c h evs (logs receipt)\<rparr>, h)))"
proof -
  let ?r0 = "fst (annotateCallPaths c)" and ?pm = "snd (annotateCallPaths c)"
  let ?E = "length evs" and ?L = "length (logs receipt)"
  let ?ws0 = "if ?E \<noteq> ?L then [count_mismatch_msg ?E ?L] else []"
  from attach_loop_holds [OF init_logs_holds, of c h evs "logs receipt" 0 ?ws0] obtain r where
    l: "attach_loop ?pm h evs (logs receipt) 0 \<lparr>root = init_logs ?pm ?r0, warnings = ?ws0\<rparr> =
          Inr \<lparr>root = r, warnings = ?ws0 @ loop_warnings c h evs (logs receipt) 0\<rparr>"
    and hl: "holds_logs c r (\<lambda>q. [] @ loop_attached evs (logs receipt) q)" by blast
  have w: "(?ws0 @ loop_warnings c h evs (logs receipt) 0) @ map leftover_msg [min ?E ?L ..< ?L] =
           stitch_warnings c h evs (logs receipt)"
    by (simp add: stitch_warnings_def loop_warnings_index)
  have "holds_logs c r (attached_at evs (logs receipt))"
    using hl by (simp add: loop_attached_index)
  moreover have "\<forall>suppress. stitch_events c evs receipt suppress h =
        (if stitch_warnings c h evs (logs receipt) \<noteq> [] \<and> \<not> suppress
         then Inl (AggregatedWarnings
                (''Warnings during stitchLogsIntoCallTrace:'' @ newline @
                 join (stitch_warnings c h evs (logs receipt)) newline))
         else Inr (\<lparr>root = r, warnings = stitch_warnings c h evs (logs receipt)\<rparr>, h))"
  proof
    fix suppress
    obtain r0 pm where an: "annotateCallPaths c = (r0, pm)" by (cases "annotateCallPaths c")
    with l have l': "attach_loop pm h evs (logs receipt) 0 \<lparr>root = init_logs pm r0, warnings = ?ws0\<rparr> =
          Inr \<lparr>root = r, warnings = ?ws0 @ loop_warnings c h evs (logs receipt) 0\<rparr>" by simp
    show "stitch_events c evs receipt suppress h =
        (if stitch_warnings c h evs (logs receipt) \<noteq> [] \<and> \<not> suppress
         then Inl (AggregatedWarnings
                (''Warnings during stitchLogsIntoCallTrace:'' @ newline @
                 join (stitch_warnings c h evs (logs receipt)) newline))
         else Inr (\<lparr>root = r, warnings = stitch_warnings c h evs (logs receipt)\<rparr>, h))"
      unfolding stitch_events_def an w [symmetric] using l' by (simp add: Let_def)
  qed
  ultimately show ?thesis by blast
qed


lemma derive_total:
  assumes "\<forall>s \<in> set steps. 1 \<le> depth s"
  shows "\<exists>evs. deriveEventPathsRevertAware steps = Some (Inr evs)"
proof -
  from run_steps_wf [OF wf_init assms] obtain st where
    "run_steps (init_state steps) steps = Some (Inr st)" by blast
  then show ?thesis by (simp add: deriveEventPathsRevertAware_def)
qed

lemma stitch_char:
  assumes "\<forall>s \<in> set structLogs. 1 \<le> depth s"
  shows "\<exists>evs r. deriveEventPathsRevertAware structLogs = Some (Inr evs) \<and>
     holds_logs c r (attached_at evs (logs receipt)) \<and>
     (\<forall>suppress. stitchLogsIntoCallTrace c structLogs receipt suppress h =
        Some (if stitch_warnings c h evs (logs receipt) \<noteq> [] \<and> \<not> suppress
              then Inl (AggregatedWarnings
                     (''Warnings during stitchLogsIntoCallTrace:'' @ newline @
                      join (stitch_warnings c h evs (logs receipt)) newline))
              else Inr (\<lparr>root = r, warnings = stitch_warnings c h evs (logs receipt)\<rparr>, h)))"
proof -
  from derive_total [OF assms] obtain evs where d: "deriveEventPathsRevertAware structLogs = Some (Inr evs)"
    by blast
  from stitch_events_char [of c evs receipt h] obtain r where
    "holds_logs c r (attached_at evs (logs receipt))"
    "\<forall>suppress. stitch_events c evs receipt suppress h =
        (if stitch_warnings c h evs (logs receipt) \<noteq> [] \<and> \<not> suppress
         then Inl (AggregatedWarnings
                (''Warnings during stitchLogsIntoCallTrace:'' @ newline @
                 join (stitch_warnings c h evs (logs receipt)) newline))
         else Inr (\<lparr>root = r, warnings = stitch_warnings c h evs (logs receipt)\<rparr>, h))" by blast
  with d show ?thesis by (auto simp: stitchLogsIntoCallTrace_def)
qed

lemma hd_count_mismatch: "hd (count_mismatch_msg E L) = CHR ''e''"
  by (simp add: count_mismatch_msg_def)

lemma hd_pair_warnings: "w \<in> set (pair_warnings c h e l i) \<Longrightarrow> hd w \<noteq> CHR ''e''"
  by (auto simp: pair_warnings_def Let_def no_node_msg_def address_mismatch_msg_def
      split: option.splits if_splits)

lemma hd_leftover: "hd (leftover_msg i) \<noteq> CHR ''e''"
  by (simp add: leftover_msg_def)

lemma count_mismatch_in_warnings:
  "count_mismatch_msg (length evs) (length lrefs) \<in> set (stitch_warnings c h evs lrefs) \<longleftrightarrow>
   length evs \<noteq> length lrefs"
proof
  assume a: "count_mismatch_msg (length evs) (length lrefs) \<in> set (stitch_warnings c h evs lrefs)"
  show "length evs \<noteq> length lrefs"
  proof
    assume "length evs = length lrefs"
    with a have "count_mismatch_msg (length evs) (length lrefs) \<in>
      (\<Union>i \<in> {0 ..< min (length evs) (length lrefs)}. set (pair_warnings c h (evs ! i) (lrefs ! i) i))"
      by (simp add: stitch_warnings_def)
    then obtain i where "count_mismatch_msg (length evs) (length lrefs) \<in> set (pair_warnings c h (evs ! i) (lrefs ! i) i)"
      by blast
    from hd_pair_warnings [OF this] show False by (simp add: hd_count_mismatch)
  qed
next
  assume "length evs \<noteq> length lrefs"
  then show "count_mismatch_msg (length evs) (length lrefs) \<in> set (stitch_warnings c h evs lrefs)"
    by (simp add: stitch_warnings_def)
qed

lemma derive_one_log:
  "deriveEventPathsRevertAware [\<lparr>op = ''LOG1'', depth = 1, pc = 0\<rparr>] =
     Some (Inr [\<lparr>ep_op = ''LOG1'', ep_pc = 0, ep_depth = 1, callPath = [], eventIdxInCall = 0\<rparr>])"
  by code_simp

lemma lower_0xAB: "toLowerCase ''0xAB'' = ''0xab''"
  by code_simp

lemma lower_0xab: "toLowerCase ''0xab'' = ''0xab''"
  by code_simp

subsection \<open>Traces outside the 1-based range of depths\<close>

text \<open>
  The results on the derivation assume depths of at least 1, as the trace format has them.
  Below that range the function can fail: at depth 0 the root frame is popped and a
  \<open>LOG\<close> step reads the top of an empty stack; at a negative depth the loop that pops
  frames never ends.
\<close>

lemma pop_frames_empty_negative:
  "pop_frames d fs evs = Some r \<Longrightarrow> \<not> (d < 0 \<and> fs = [])"
proof (rule pop_frames.raw_induct [where P = "\<lambda>d fs evs r. \<not> (d < 0 \<and> fs = [])"])
  fix pop :: "int \<Rightarrow> Frame list \<Rightarrow> Event list \<Rightarrow> (error + Frame list \<times> Event list) option"
    and d fs evs r
  assume ih: "\<And>d fs evs r. pop d fs evs = Some r \<Longrightarrow> \<not> (d < 0 \<and> fs = [])"
    and body: "(if d - 1 < int (length fs) - 1
      then if fs = [] then pop d fs evs
           else if reverted (last fs)
                then case mark_dropped (logsIdx (last fs)) evs of
                     Inl e \<Rightarrow> Some (Inl e)
                     | Inr evs' \<Rightarrow> pop d (butlast fs) evs'
                else pop d (butlast fs) evs
      else Some (Inr (fs, evs))) = Some r"
  show "\<not> (d < 0 \<and> fs = [])"
  proof
    assume a: "d < 0 \<and> fs = []"
    with body have "pop d fs evs = Some r" by simp
    from ih [OF this] a show False by simp
  qed
qed

lemma pop_frames_diverges: "d < 0 \<Longrightarrow> pop_frames d [] evs = None"
  using pop_frames_empty_negative [of d "[]" evs] by (cases "pop_frames d [] evs") auto

lemma negative_depth_never_returns:
  "deriveEventPathsRevertAware [\<lparr>op = ''STOP'', depth = - 1, pc = 0\<rparr>] = None"
proof -
  have "pop_frames (- 1) [\<lparr>path = [], nextChild = 0, logsIdx = [], reverted = False\<rparr>] [] =
        pop_frames (- 1) [] []"
    by (subst pop_frames.simps) simp
  then show ?thesis
    by (simp add: deriveEventPathsRevertAware_def init_state_def process_step_def unwind_def
        resolve_pending_def pop_frames_diverges)
qed

lemma depth_zero_log_raises:
  "deriveEventPathsRevertAware [\<lparr>op = ''LOG1'', depth = 0, pc = 0\<rparr>] = Some (Inl TypeError)"
  by code_simp

text \<open>The label that \<open>enrichCall\<close> gives to a node, by the node's input.\<close>

lemma enrichCall_method:
  "node_method (enrichCall selectors topic_table n) =
     (case node_input n of
        None \<Rightarrow> None
      | Some i \<Rightarrow>
          if i = [] then Some []
          else if length i < 10 then Some ''unknown''
          else (case selectors (take 10 i) of Some name \<Rightarrow> Some name | None \<Rightarrow> Some (take 10 i)))"
  by (cases n) (auto simp: getMethodName_def Let_def split: option.splits)

section \<open>The claims\<close>

text \<open>
  Claim C1: a \<open>REVERT\<close> inside a call frame removes the log records emitted inside that
  frame from the finalized output. The source drops the logs of a reverted frame only when
  a later step pops that frame. A transaction that emits a log at depth 1 and then reverts
  at depth 1 ends its trace inside the top-level frame: the frame is marked reverted, it is
  never popped, and the record of the log is returned.
\<close>

theorem revert_at_end_of_trace_keeps_log:
  "deriveEventPathsRevertAware
     [\<lparr>op = ''LOG1'', depth = 1, pc = 0\<rparr>, \<lparr>op = ''REVERT'', depth = 1, pc = 1\<rparr>]
   = Some (Inr [\<lparr>ep_op = ''LOG1'', ep_pc = 0, ep_depth = 1, callPath = [], eventIdxInCall = 0\<rparr>])"
  by code_simp





text \<open>
  Claim C4: the returned list holds the provisional records that are not dropped, in their
  original order, and the \<open>eventIdxInCall\<close> of a returned record is the number of returned
  records before it with the same \<open>callPath\<close>: a zero-based ordinal, which increases in
  the original order among the records of one path and so is unique among them.
\<close>

theorem finalized_order_and_ordinals:
  assumes "\<forall>s \<in> set steps. 1 \<le> depth s"
  shows "\<exists>st out. run_steps (init_state steps) steps = Some (Inr st) \<and>
           deriveEventPathsRevertAware steps = Some (Inr out) \<and>
           map (\<lambda>e. (ep_op e, ep_pc e, ep_depth e, callPath e)) out =
             map (\<lambda>e. (ev_op e, ev_pc e, ev_depth e, ev_callPath e))
                 (filter (\<lambda>e. \<not> dropped e) (events st)) \<and>
           (\<forall>i < length out. eventIdxInCall (out ! i) =
              length (filter (\<lambda>e. callPath e = callPath (out ! i)) (take i out))) \<and>
           (\<forall>i j. i < j \<and> j < length out \<and> callPath (out ! i) = callPath (out ! j) \<longrightarrow>
              eventIdxInCall (out ! i) < eventIdxInCall (out ! j))"
proof -
  from run_steps_wf [OF wf_init assms] obtain st where
    r: "run_steps (init_state steps) steps = Some (Inr st)" by blast
  let ?out = "finalize Map.empty (events st)"
  have d: "deriveEventPathsRevertAware steps = Some (Inr ?out)"
    using r by (simp add: deriveEventPathsRevertAware_def)
  have idx: "\<forall>i < length ?out. eventIdxInCall (?out ! i) =
              length (filter (\<lambda>e. callPath e = callPath (?out ! i)) (take i ?out))"
    using finalize_idx_empty by blast
  have "\<forall>i j. i < j \<and> j < length ?out \<and> callPath (?out ! i) = callPath (?out ! j) \<longrightarrow>
              eventIdxInCall (?out ! i) < eventIdxInCall (?out ! j)"
  proof (intro allI impI)
    fix i j assume a: "i < j \<and> j < length ?out \<and> callPath (?out ! i) = callPath (?out ! j)"
    then have "length (filter (\<lambda>e. callPath e = callPath (?out ! j)) (take i ?out))
             < length (filter (\<lambda>e. callPath e = callPath (?out ! j)) (take j ?out))"
      by (intro count_take_mono) simp_all
    with a idx show "eventIdxInCall (?out ! i) < eventIdxInCall (?out ! j)" by simp
  qed
  with r d idx finalize_cores [of Map.empty "events st"] show ?thesis by blast
qed

theorem finalized_order_and_ordinals_witness:
  "\<exists>st out. run_steps (init_state two_log_trace) two_log_trace = Some (Inr st) \<and>
           deriveEventPathsRevertAware two_log_trace = Some (Inr out) \<and>
           map (\<lambda>e. (ep_op e, ep_pc e, ep_depth e, callPath e)) out =
             map (\<lambda>e. (ev_op e, ev_pc e, ev_depth e, ev_callPath e))
                 (filter (\<lambda>e. \<not> dropped e) (events st)) \<and>
           (\<forall>i < length out. eventIdxInCall (out ! i) =
              length (filter (\<lambda>e. callPath e = callPath (out ! i)) (take i out))) \<and>
           (\<forall>i j. i < j \<and> j < length out \<and> callPath (out ! i) = callPath (out ! j) \<longrightarrow>
              eventIdxInCall (out ! i) < eventIdxInCall (out ! j))"
  by (rule finalized_order_and_ordinals) (simp add: two_log_trace_def)

text \<open>
  Claim C5, as stated, fails: the address check is skipped when the expected address or the
  log's address is absent or empty. A node without a destination address receives a log
  whose address is \<open>0xAB\<close>, and no warning is emitted.
\<close>

theorem missing_destination_no_warning:
  "stitchLogsIntoCallTrace
     (Single (CallNode None (Some ''CALL'') (Some ''0x01'') None None None None None))
     [\<lparr>op = ''LOG1'', depth = 1, pc = 0\<rparr>] \<lparr>logs = [7]\<rparr> True example_store
   = Some (Inr (\<lparr>root = Single (CallNode None (Some ''CALL'') (Some ''0x01'') None None None
                                   (Some [7]) (Some [])),
                 warnings = []\<rparr>, example_store)) \<and>
   address (example_store 7) = ''0xAB'' \<and>
   map_option toLowerCase (node_to (CallNode None (Some ''CALL'') (Some ''0x01'') None None None None None))
     \<noteq> Some (toLowerCase (address (example_store 7)))"
  by (simp add: stitchLogsIntoCallTrace_def derive_one_log stitch_events_def init_logs_def
      attach_one_def path_key_def set_logs_def expectedLogAddressForNode_def address_check_fails_def
      example_store_def)

text \<open>
  Claim C5, amended: for every pair of the lock-step walk whose event path is the position of
  a node, the expected address is the lower-cased \<open>from\<close> of the node when its type is
  \<open>DELEGATECALL\<close> or \<open>CALLCODE\<close> and its lower-cased \<open>to\<close> otherwise; the pair adds an
  address-mismatch warning exactly when the expected address and the log's address are both
  present and not empty and the expected address differs from the lower-cased address of
  the log, and it adds no other warning; the log is attached to the node in either case.
\<close>

theorem address_check_is_guarded:
  assumes "\<forall>s \<in> set structLogs. 1 \<le> depth s"
  shows "\<exists>evs r before after.
     deriveEventPathsRevertAware structLogs = Some (Inr evs) \<and>
     stitchLogsIntoCallTrace c structLogs receipt True h =
       Some (Inr (\<lparr>root = r,
                   warnings = before @
                     concat (map (\<lambda>i. pair_warnings c h (evs ! i) (logs receipt ! i) i)
                                 [0 ..< min (length evs) (length (logs receipt))]) @
                     after\<rparr>, h)) \<and>
     (\<forall>i n. i < min (length evs) (length (logs receipt)) \<and>
            root_node_at c (callPath (evs ! i)) = Some n \<longrightarrow>
        (\<exists>expected.
           expected = (if node_type n = Some ''DELEGATECALL'' \<or> node_type n = Some ''CALLCODE''
                       then map_option toLowerCase (node_from n)
                       else map_option toLowerCase (node_to n)) \<and>
           pair_warnings c h (evs ! i) (logs receipt ! i) i =
             (if expected \<noteq> None \<and> expected \<noteq> Some [] \<and> address (h (logs receipt ! i)) \<noteq> [] \<and>
                 expected \<noteq> Some (toLowerCase (address (h (logs receipt ! i))))
              then [address_mismatch_msg (path_key (callPath (evs ! i))) (the expected)
                      (toLowerCase (address (h (logs receipt ! i)))) i]
              else [])) \<and>
        (\<exists>m' ls. root_node_at r (callPath (evs ! i)) = Some m' \<and> node_logs m' = Some ls \<and>
                 logs receipt ! i \<in> set ls))"
proof -
  from stitch_char [OF assms, of c receipt h] obtain evs r where
    d: "deriveEventPathsRevertAware structLogs = Some (Inr evs)"
    and hl: "holds_logs c r (attached_at evs (logs receipt))"
    and s: "\<forall>suppress. stitchLogsIntoCallTrace c structLogs receipt suppress h =
        Some (if stitch_warnings c h evs (logs receipt) \<noteq> [] \<and> \<not> suppress
              then Inl (AggregatedWarnings
                     (''Warnings during stitchLogsIntoCallTrace:'' @ newline @
                      join (stitch_warnings c h evs (logs receipt)) newline))
              else Inr (\<lparr>root = r, warnings = stitch_warnings c h evs (logs receipt)\<rparr>, h))" by blast
  let ?E = "length evs" and ?L = "length (logs receipt)"
  let ?before = "if ?E \<noteq> ?L then [count_mismatch_msg ?E ?L] else []"
  let ?after = "map leftover_msg [min ?E ?L ..< ?L]"
  have 1: "stitchLogsIntoCallTrace c structLogs receipt True h =
       Some (Inr (\<lparr>root = r,
                   warnings = ?before @
                     concat (map (\<lambda>i. pair_warnings c h (evs ! i) (logs receipt ! i) i)
                                 [0 ..< min ?E ?L]) @
                     ?after\<rparr>, h))"
    using s by (simp add: stitch_warnings_def)
  have 2: "\<forall>i n. i < min ?E ?L \<and> root_node_at c (callPath (evs ! i)) = Some n \<longrightarrow>
        (\<exists>expected.
           expected = (if node_type n = Some ''DELEGATECALL'' \<or> node_type n = Some ''CALLCODE''
                       then map_option toLowerCase (node_from n)
                       else map_option toLowerCase (node_to n)) \<and>
           pair_warnings c h (evs ! i) (logs receipt ! i) i =
             (if expected \<noteq> None \<and> expected \<noteq> Some [] \<and> address (h (logs receipt ! i)) \<noteq> [] \<and>
                 expected \<noteq> Some (toLowerCase (address (h (logs receipt ! i))))
              then [address_mismatch_msg (path_key (callPath (evs ! i))) (the expected)
                      (toLowerCase (address (h (logs receipt ! i)))) i]
              else [])) \<and>
        (\<exists>m' ls. root_node_at r (callPath (evs ! i)) = Some m' \<and> node_logs m' = Some ls \<and>
                 logs receipt ! i \<in> set ls)"
  proof (intro allI impI)
    fix i n assume a: "i < min ?E ?L \<and> root_node_at c (callPath (evs ! i)) = Some n"
    let ?x = "if node_type n = Some ''DELEGATECALL'' \<or> node_type n = Some ''CALLCODE''
                       then map_option toLowerCase (node_from n)
                       else map_option toLowerCase (node_to n)"
    have p: "pair_warnings c h (evs ! i) (logs receipt ! i) i =
             (if ?x \<noteq> None \<and> ?x \<noteq> Some [] \<and> address (h (logs receipt ! i)) \<noteq> [] \<and>
                 ?x \<noteq> Some (toLowerCase (address (h (logs receipt ! i))))
              then [address_mismatch_msg (path_key (callPath (evs ! i))) (the ?x)
                      (toLowerCase (address (h (logs receipt ! i)))) i]
              else [])"
      using a by (cases ?x)
        (simp_all add: pair_warnings_def Let_def address_check_fails_def expectedLogAddressForNode_def)
    from hl a obtain m' where m': "root_node_at r (callPath (evs ! i)) = Some m'"
      "node_logs m' = Some (attached_at evs (logs receipt) (callPath (evs ! i)))"
      unfolding holds_logs_def by blast
    have "logs receipt ! i \<in> set (attached_at evs (logs receipt) (callPath (evs ! i)))"
      using a by (auto simp: attached_at_def)
    with m' p show "(\<exists>expected.
           expected = (if node_type n = Some ''DELEGATECALL'' \<or> node_type n = Some ''CALLCODE''
                       then map_option toLowerCase (node_from n)
                       else map_option toLowerCase (node_to n)) \<and>
           pair_warnings c h (evs ! i) (logs receipt ! i) i =
             (if expected \<noteq> None \<and> expected \<noteq> Some [] \<and> address (h (logs receipt ! i)) \<noteq> [] \<and>
                 expected \<noteq> Some (toLowerCase (address (h (logs receipt ! i))))
              then [address_mismatch_msg (path_key (callPath (evs ! i))) (the expected)
                      (toLowerCase (address (h (logs receipt ! i)))) i]
              else [])) \<and>
        (\<exists>m' ls. root_node_at r (callPath (evs ! i)) = Some m' \<and> node_logs m' = Some ls \<and>
                 logs receipt ! i \<in> set ls)" by blast
  qed
  from d 1 2 show ?thesis by blast
qed

theorem address_check_is_guarded_witness:
  "\<exists>evs r before after.
     deriveEventPathsRevertAware one_log_trace = Some (Inr evs) \<and>
     stitchLogsIntoCallTrace (Single call_node) one_log_trace \<lparr>logs = [7]\<rparr> True example_store =
       Some (Inr (\<lparr>root = r,
                   warnings = before @
                     concat (map (\<lambda>i. pair_warnings (Single call_node) example_store (evs ! i) (logs \<lparr>logs = [7]\<rparr> ! i) i)
                                 [0 ..< min (length evs) (length (logs \<lparr>logs = [7]\<rparr>))]) @
                     after\<rparr>, example_store)) \<and>
     (\<forall>i n. i < min (length evs) (length (logs \<lparr>logs = [7]\<rparr>)) \<and>
            root_node_at (Single call_node) (callPath (evs ! i)) = Some n \<longrightarrow>
        (\<exists>expected.
           expected = (if node_type n = Some ''DELEGATECALL'' \<or> node_type n = Some ''CALLCODE''
                       then map_option toLowerCase (node_from n)
                       else map_option toLowerCase (node_to n)) \<and>
           pair_warnings (Single call_node) example_store (evs ! i) (logs \<lparr>logs = [7]\<rparr> ! i) i =
             (if expected \<noteq> None \<and> expected \<noteq> Some [] \<and> address (example_store (logs \<lparr>logs = [7]\<rparr> ! i)) \<noteq> [] \<and>
                 expected \<noteq> Some (toLowerCase (address (example_store (logs \<lparr>logs = [7]\<rparr> ! i))))
              then [address_mismatch_msg (path_key (callPath (evs ! i))) (the expected)
                      (toLowerCase (address (example_store (logs \<lparr>logs = [7]\<rparr> ! i)))) i]
              else [])) \<and>
        (\<exists>m' ls. root_node_at r (callPath (evs ! i)) = Some m' \<and> node_logs m' = Some ls \<and>
                 logs \<lparr>logs = [7]\<rparr> ! i \<in> set ls))"
  by (rule address_check_is_guarded) (simp add: one_log_trace_def)



text \<open>
  Claim C7: with \<open>E\<close> derived events and \<open>L\<close> receipt logs, the warning list is the
  count-mismatch warning, present exactly when \<open>E \<noteq> L\<close> and placed before everything else,
  then the warnings of the pairs \<open>(evs ! i, logs ! i)\<close> for \<open>i < min E L\<close> in order, then one
  leftover warning for each index from \<open>min E L\<close> up to \<open>L\<close>. The node at a position
  receives the logs of exactly the pairs \<open>i < min E L\<close> whose event has that path, in order.
\<close>

theorem stitch_warning_structure:
  assumes "\<forall>s \<in> set structLogs. 1 \<le> depth s"
  shows "\<exists>evs r mid ws.
     deriveEventPathsRevertAware structLogs = Some (Inr evs) \<and>
     ws = (if length evs \<noteq> length (logs receipt)
           then [count_mismatch_msg (length evs) (length (logs receipt))] else []) @
          mid @
          map leftover_msg [min (length evs) (length (logs receipt)) ..< length (logs receipt)] \<and>
     mid = concat (map (\<lambda>i. pair_warnings c h (evs ! i) (logs receipt ! i) i)
                       [0 ..< min (length evs) (length (logs receipt))]) \<and>
     (\<forall>suppress.
        stitchLogsIntoCallTrace c structLogs receipt suppress h =
          Some (if ws \<noteq> [] \<and> \<not> suppress
                then Inl (AggregatedWarnings
                       (''Warnings during stitchLogsIntoCallTrace:'' @ newline @ join ws newline))
                else Inr (\<lparr>root = r, warnings = ws\<rparr>, h))) \<and>
     (count_mismatch_msg (length evs) (length (logs receipt)) \<in> set ws \<longleftrightarrow>
        length evs \<noteq> length (logs receipt)) \<and>
     (\<forall>q m. root_node_at c q = Some m \<longrightarrow>
        (\<exists>m'. root_node_at r q = Some m' \<and>
              node_logs m' =
                Some (map (\<lambda>i. logs receipt ! i)
                       (filter (\<lambda>i. callPath (evs ! i) = q)
                          [0 ..< min (length evs) (length (logs receipt))]))))"
proof -
  from stitch_char [OF assms, of c receipt h] obtain evs r where
    d: "deriveEventPathsRevertAware structLogs = Some (Inr evs)"
    and hl: "holds_logs c r (attached_at evs (logs receipt))"
    and s: "\<forall>suppress. stitchLogsIntoCallTrace c structLogs receipt suppress h =
        Some (if stitch_warnings c h evs (logs receipt) \<noteq> [] \<and> \<not> suppress
              then Inl (AggregatedWarnings
                     (''Warnings during stitchLogsIntoCallTrace:'' @ newline @
                      join (stitch_warnings c h evs (logs receipt)) newline))
              else Inr (\<lparr>root = r, warnings = stitch_warnings c h evs (logs receipt)\<rparr>, h))" by blast
  let ?ws = "stitch_warnings c h evs (logs receipt)"
  let ?mid = "concat (map (\<lambda>i. pair_warnings c h (evs ! i) (logs receipt ! i) i)
                       [0 ..< min (length evs) (length (logs receipt))])"
  have w: "?ws = (if length evs \<noteq> length (logs receipt)
           then [count_mismatch_msg (length evs) (length (logs receipt))] else []) @
          ?mid @
          map leftover_msg [min (length evs) (length (logs receipt)) ..< length (logs receipt)]"
    by (simp add: stitch_warnings_def)
  have a: "\<forall>q m. root_node_at c q = Some m \<longrightarrow>
        (\<exists>m'. root_node_at r q = Some m' \<and>
              node_logs m' =
                Some (map (\<lambda>i. logs receipt ! i)
                       (filter (\<lambda>i. callPath (evs ! i) = q)
                          [0 ..< min (length evs) (length (logs receipt))])))"
    using hl unfolding holds_logs_def attached_at_def by blast
  from d w s count_mismatch_in_warnings [of evs "logs receipt" c h] a show ?thesis by blast
qed

theorem stitch_warning_structure_witness:
  "\<exists>evs r mid ws.
     deriveEventPathsRevertAware one_log_trace = Some (Inr evs) \<and>
     ws = (if length evs \<noteq> length (logs \<lparr>logs = [7, 8]\<rparr>)
           then [count_mismatch_msg (length evs) (length (logs \<lparr>logs = [7, 8]\<rparr>))] else []) @
          mid @
          map leftover_msg [min (length evs) (length (logs \<lparr>logs = [7, 8]\<rparr>)) ..< length (logs \<lparr>logs = [7, 8]\<rparr>)] \<and>
     mid = concat (map (\<lambda>i. pair_warnings (Single call_node) example_store (evs ! i) (logs \<lparr>logs = [7, 8]\<rparr> ! i) i)
                       [0 ..< min (length evs) (length (logs \<lparr>logs = [7, 8]\<rparr>))]) \<and>
     (\<forall>suppress.
        stitchLogsIntoCallTrace (Single call_node) one_log_trace \<lparr>logs = [7, 8]\<rparr> suppress example_store =
          Some (if ws \<noteq> [] \<and> \<not> suppress
                then Inl (AggregatedWarnings
                       (''Warnings during stitchLogsIntoCallTrace:'' @ newline @ join ws newline))
                else Inr (\<lparr>root = r, warnings = ws\<rparr>, example_store))) \<and>
     (count_mismatch_msg (length evs) (length (logs \<lparr>logs = [7, 8]\<rparr>)) \<in> set ws \<longleftrightarrow>
        length evs \<noteq> length (logs \<lparr>logs = [7, 8]\<rparr>)) \<and>
     (\<forall>q m. root_node_at (Single call_node) q = Some m \<longrightarrow>
        (\<exists>m'. root_node_at r q = Some m' \<and>
              node_logs m' =
                Some (map (\<lambda>i. logs \<lparr>logs = [7, 8]\<rparr> ! i)
                       (filter (\<lambda>i. callPath (evs ! i) = q)
                          [0 ..< min (length evs) (length (logs \<lparr>logs = [7, 8]\<rparr>))]))))"
  by (rule stitch_warning_structure) (simp add: one_log_trace_def)

text \<open>
  Claim C8: a node whose input payload is missing receives the label \<open>unknown\<close>. The
  source calls \<open>getMethodName\<close>, which returns \<open>unknown\<close> for a missing input, only when
  the input is truthy; for a node without input the method stays undefined.
\<close>

theorem enrich_missing_input_no_method:
  "enrichTraceWithCallAndEventDetails
     (Single (CallNode None (Some ''CALL'') (Some ''0x01'') (Some ''0x02'') None None None None))
     Map.empty (Map.empty :: string \<rightharpoonup> string \<times> (ReceiptLog \<Rightarrow> unit))
   = Single (CallNode None (Some ''CALL'') (Some ''0x01'') (Some ''0x02'') None None None None)"
  by simp

text \<open>
  Claim C9, as stated, fails: what is attached to a node is the reference held by the
  receipt's list, not a copy. The receipt holds the reference 7 and so does the node.
\<close>

theorem attached_log_is_receipt_reference:
  "stitchLogsIntoCallTrace
     (Single (CallNode None (Some ''CALL'') (Some ''0x01'') (Some ''0xab'') None None None None))
     [\<lparr>op = ''LOG1'', depth = 1, pc = 0\<rparr>] \<lparr>logs = [7]\<rparr> True example_store
   = Some (Inr (\<lparr>root = Single (CallNode None (Some ''CALL'') (Some ''0x01'') (Some ''0xab'') None None
                                   (Some [7]) (Some [])),
                 warnings = []\<rparr>, example_store)) \<and>
   logs \<lparr>logs = [7]\<rparr> = [7]"
  by (simp add: stitchLogsIntoCallTrace_def derive_one_log stitch_events_def init_logs_def
      attach_one_def path_key_def set_logs_def expectedLogAddressForNode_def address_check_fails_def
      example_store_def lower_0xAB lower_0xab Let_def)

text \<open>
  Claim C9, amended: the store of log objects is the same after the call, and the \<open>logs\<close>
  array of every node holds references taken from the receipt's list: the original log
  objects, no copies.
\<close>

theorem stitch_attaches_receipt_references:
  assumes "\<forall>s \<in> set structLogs. 1 \<le> depth s"
  shows "\<exists>evs r ws.
     deriveEventPathsRevertAware structLogs = Some (Inr evs) \<and>
     stitchLogsIntoCallTrace c structLogs receipt True h = Some (Inr (\<lparr>root = r, warnings = ws\<rparr>, h)) \<and>
     (\<forall>q m. root_node_at c q = Some m \<longrightarrow>
        (\<exists>m' ls. root_node_at r q = Some m' \<and> node_logs m' = Some ls \<and>
                 ls = map (\<lambda>i. logs receipt ! i)
                        (filter (\<lambda>i. callPath (evs ! i) = q)
                           [0 ..< min (length evs) (length (logs receipt))]) \<and>
                 set ls \<subseteq> set (logs receipt)))"
proof -
  from stitch_char [OF assms, of c receipt h] obtain evs r where
    d: "deriveEventPathsRevertAware structLogs = Some (Inr evs)"
    and hl: "holds_logs c r (attached_at evs (logs receipt))"
    and s: "\<forall>suppress. stitchLogsIntoCallTrace c structLogs receipt suppress h =
        Some (if stitch_warnings c h evs (logs receipt) \<noteq> [] \<and> \<not> suppress
              then Inl (AggregatedWarnings
                     (''Warnings during stitchLogsIntoCallTrace:'' @ newline @
                      join (stitch_warnings c h evs (logs receipt)) newline))
              else Inr (\<lparr>root = r, warnings = stitch_warnings c h evs (logs receipt)\<rparr>, h))" by blast
  have 1: "stitchLogsIntoCallTrace c structLogs receipt True h =
    Some (Inr (\<lparr>root = r, warnings = stitch_warnings c h evs (logs receipt)\<rparr>, h))"
    using s by simp
  have sub: "\<And>q. set (attached_at evs (logs receipt) q) \<subseteq> set (logs receipt)"
    by (auto simp: attached_at_def)
  have 2: "\<forall>q m. root_node_at c q = Some m \<longrightarrow>
        (\<exists>m' ls. root_node_at r q = Some m' \<and> node_logs m' = Some ls \<and>
                 ls = map (\<lambda>i. logs receipt ! i)
                        (filter (\<lambda>i. callPath (evs ! i) = q)
                           [0 ..< min (length evs) (length (logs receipt))]) \<and>
                 set ls \<subseteq> set (logs receipt))"
  proof (intro allI impI)
    fix q m assume "root_node_at c q = Some m"
    with hl obtain m' where "root_node_at r q = Some m'"
      "node_logs m' = Some (attached_at evs (logs receipt) q)"
      unfolding holds_logs_def by blast
    with sub [of q] show "\<exists>m' ls. root_node_at r q = Some m' \<and> node_logs m' = Some ls \<and>
                 ls = map (\<lambda>i. logs receipt ! i)
                        (filter (\<lambda>i. callPath (evs ! i) = q)
                           [0 ..< min (length evs) (length (logs receipt))]) \<and>
                 set ls \<subseteq> set (logs receipt)"
      unfolding attached_at_def by blast
  qed
  from d 1 2 show ?thesis by blast
qed

theorem stitch_attaches_receipt_references_witness:
  "\<exists>evs r ws.
     deriveEventPathsRevertAware one_log_trace = Some (Inr evs) \<and>
     stitchLogsIntoCallTrace (Single call_node) one_log_trace \<lparr>logs = [7]\<rparr> True example_store =
       Some (Inr (\<lparr>root = r, warnings = ws\<rparr>, example_store)) \<and>
     (\<forall>q m. root_node_at (Single call_node) q = Some m \<longrightarrow>
        (\<exists>m' ls. root_node_at r q = Some m' \<and> node_logs m' = Some ls \<and>
                 ls = map (\<lambda>i. logs \<lparr>logs = [7]\<rparr> ! i)
                        (filter (\<lambda>i. callPath (evs ! i) = q)
                           [0 ..< min (length evs) (length (logs \<lparr>logs = [7]\<rparr>))]) \<and>
                 set ls \<subseteq> set (logs \<lparr>logs = [7]\<rparr>)))"
  by (rule stitch_attaches_receipt_references) (simp add: one_log_trace_def)

text \<open>
  Claim C10: when every step has depth at least 1, the function returns a list of records:
  no access is out of bounds and every loop ends. At the start of every iteration and once
  the step has been unwound to its depth, the stack is not empty and its bottom frame is the
  root frame; the parent index of a pending reservation is within the stack, and every
  index in a frame's log-index list is within the event list.
\<close>

theorem root_frame_never_popped:
  assumes "\<forall>s \<in> set steps. 1 \<le> depth s"
  shows "\<exists>out. deriveEventPathsRevertAware steps = Some (Inr out) \<and>
         (\<forall>k < length steps. \<exists>st st1.
            state_after steps k = Some (Inr st) \<and> frames st \<noteq> [] \<and> path (hd (frames st)) = [] \<and>
            (\<forall>p i. pending st = Some (p, i) \<longrightarrow> p < length (frames st)) \<and>
            (\<forall>f \<in> set (frames st). \<forall>i \<in> set (logsIdx f). i < length (events st)) \<and>
            unwind (steps ! k) st = Some (Inr st1) \<and> frames st1 \<noteq> [] \<and> path (hd (frames st1)) = [])"
proof -
  from run_steps_wf [OF wf_init assms] obtain st where
    "run_steps (init_state steps) steps = Some (Inr st)" by blast
  then have d: "deriveEventPathsRevertAware steps = Some (Inr (finalize Map.empty (events st)))"
    by (simp add: deriveEventPathsRevertAware_def)
  have "\<forall>k < length steps. \<exists>st st1.
            state_after steps k = Some (Inr st) \<and> frames st \<noteq> [] \<and> path (hd (frames st)) = [] \<and>
            (\<forall>p i. pending st = Some (p, i) \<longrightarrow> p < length (frames st)) \<and>
            (\<forall>f \<in> set (frames st). \<forall>i \<in> set (logsIdx f). i < length (events st)) \<and>
            unwind (steps ! k) st = Some (Inr st1) \<and> frames st1 \<noteq> [] \<and> path (hd (frames st1)) = []"
  proof (intro allI impI)
    fix k assume k: "k < length steps"
    have "\<forall>s \<in> set (take k steps). 1 \<le> depth s" using assms by (auto dest: in_set_takeD)
    from run_steps_wf [OF wf_init this] obtain st where
      r: "run_steps (init_state steps) (take k steps) = Some (Inr st)" and w: "wf_state st" by blast
    have "1 \<le> depth (steps ! k)" using assms k by simp
    from unwind_wf [OF w this] obtain st1 where
      u: "unwind (steps ! k) st = Some (Inr st1)" and w1: "wf_state st1" by blast
    from r w u w1 show "\<exists>st st1.
            state_after steps k = Some (Inr st) \<and> frames st \<noteq> [] \<and> path (hd (frames st)) = [] \<and>
            (\<forall>p i. pending st = Some (p, i) \<longrightarrow> p < length (frames st)) \<and>
            (\<forall>f \<in> set (frames st). \<forall>i \<in> set (logsIdx f). i < length (events st)) \<and>
            unwind (steps ! k) st = Some (Inr st1) \<and> frames st1 \<noteq> [] \<and> path (hd (frames st1)) = []"
      unfolding state_after_def wf_state_def idx_ok_def by blast
  qed
  with d show ?thesis by blast
qed

theorem root_frame_never_popped_witness:
  "\<exists>out. deriveEventPathsRevertAware two_log_trace = Some (Inr out) \<and>
         (\<forall>k < length two_log_trace. \<exists>st st1.
            state_after two_log_trace k = Some (Inr st) \<and> frames st \<noteq> [] \<and> path (hd (frames st)) = [] \<and>
            (\<forall>p i. pending st = Some (p, i) \<longrightarrow> p < length (frames st)) \<and>
            (\<forall>f \<in> set (frames st). \<forall>i \<in> set (logsIdx f). i < length (events st)) \<and>
            unwind (two_log_trace ! k) st = Some (Inr st1) \<and> frames st1 \<noteq> [] \<and>
            path (hd (frames st1)) = [])"
  by (rule root_frame_never_popped) (simp add: two_log_trace_def)

end
